theory Spec2Isabelle
  imports Complex_Main "HOL-Library.Log_Nat"
begin

section \<open>Kohonen self-organising map in one dimension\<close>

text \<open>
  This theory embeds the training algorithm of \<^verbatim>\<open>machine_learning/kohonen_som.c\<close>:
  \<^verbatim>\<open>get_min_1d\<close>, \<^verbatim>\<open>update_weights\<close> and \<^verbatim>\<open>kohonen_som_tracer\<close>.

  Conventions of the embedding.
  \<^item> The weights, the samples and the distances are \<^typ>\<open>real\<close> numbers and the
    arithmetic of \<open>step1\<close>, \<open>step3\<close> and of the learning rate is exact, as in the data
    model of the specification (vectors and matrices of real numbers). What a
    \<^verbatim>\<open>double\<close> adds to that is modelled where a statement hinges on it:
    \<^item> the numbers that \<^verbatim>\<open>get_min_1d\<close> compares are of type \<open>dval\<close>, a real number,
      \<open>+\<infinity>\<close>, \<open>-\<infinity>\<close> or NaN, and \<open><\<close> on them is that of IEEE 754;
    \<^item> \<open>dbl\<close> is the range of binary64: a distance of \<open>2\<^sup>1\<^sup>0\<^sup>2\<^sup>4\<close> or more is stored as
      \<open>+\<infinity>\<close>. \<open>update_weights_with dbl\<close> is the call with distances of this range,
      \<open>update_weights\<close> the call with distances of any size;
    \<^item> the rounding of binary64 is modelled in a section of its own, for the
      learning-rate schedule (where the number of passes hinges on it) and for the
      assignment of step 3 to one weight.
  \<^item> A C \<^verbatim>\<open>int\<close> has 32 bits. It is an \<^typ>\<open>int\<close> here, and the arguments of type
    \<^verbatim>\<open>int\<close> are taken to lie between \<open>- 2\<^sup>3\<^sup>1\<close> and \<open>2\<^sup>3\<^sup>1 - 1\<close>. A loop counter
    stays below the bound of its loop and \<^verbatim>\<open>R--\<close> is behind the test \<^verbatim>\<open>R > 1\<close>, so
    these cannot overflow. The three results that no test bounds are wrapped to 32
    bits by \<open>c_int\<close>:
    \<^verbatim>\<open>d_min_idx - R\<close>, \<^verbatim>\<open>d_min_idx + R\<close> and \<^verbatim>\<open>iter++\<close>. (C leaves the overflow
    of a signed sum undefined; the wrap-around is what the machine code does with
    it.)
  \<^item> \<^verbatim>\<open>double *\<close> is a list of reals, \<^verbatim>\<open>double *const *\<close> a list of rows, each row an
    object of its own (no two rows share storage, and no row shares storage with the
    sample or with \<^verbatim>\<open>D\<close>). The dimensions \<^verbatim>\<open>num_out\<close>, \<^verbatim>\<open>num_features\<close> and
    \<^verbatim>\<open>num_samples\<close> are arguments beside the arrays, as in the source, and every array
    access checks its index against the array: an access outside is the result
    \<open>Inl Out_Of_Bounds\<close>.
  \<^item> A local variable that was never assigned holds \<open>None\<close>; using such a value is
    the result \<open>Inl Indeterminate_Value\<close>. What the program does next depends on
    what the memory of the variable happens to hold; \<open>update_weights_with\<close> takes
    that content as an argument, so that both can be said.
  \<^item> The \<^verbatim>\<open>#pragma omp for\<close> lines stand outside of any parallel region, so the loops
    below them run on the one thread that meets them, in index order.
\<close>

type_synonym vec = "real list"
type_synonym mat = "real list list"

datatype error = Out_Of_Bounds | Indeterminate_Value

text \<open>
  What a \<^verbatim>\<open>double\<close> holds when it is compared: a number, \<open>+\<infinity>\<close> (\<^verbatim>\<open>INFINITY\<close>), \<open>-\<infinity>\<close> or
  a NaN.
\<close>

datatype dval = Finite real | PInf | NInf | NaN

text \<open>
  The comparison \<^verbatim>\<open>X[i] < val[0]\<close> of a stored number with the running minimum, as
  IEEE 754 has it: false when either side is a NaN, and \<open>+\<infinity>\<close> is not below \<open>+\<infinity>\<close>.
\<close>

fun lt_dval :: "dval \<Rightarrow> dval \<Rightarrow> bool" where
  "lt_dval NaN b = False"
| "lt_dval a NaN = False"
| "lt_dval (Finite a) (Finite b) = (a < b)"
| "lt_dval (Finite a) PInf = True"
| "lt_dval (Finite a) NInf = False"
| "lt_dval NInf NInf = False"
| "lt_dval NInf b = True"
| "lt_dval PInf b = False"

text \<open>
  The range of binary64: an exact result of \<open>2\<^sup>1\<^sup>0\<^sup>2\<^sup>4\<close> or more is stored as \<open>+\<infinity>\<close>, one
  of \<open>- 2\<^sup>1\<^sup>0\<^sup>2\<^sup>4\<close> or less as \<open>-\<infinity>\<close> (the largest binary64 number is
  \<open>2\<^sup>1\<^sup>0\<^sup>2\<^sup>4 - 2\<^sup>9\<^sup>7\<^sup>1\<close>). Rounding inside the range is left out.
\<close>

definition dbl :: "real \<Rightarrow> dval" where
  "dbl v = (if 2 ^ 1024 \<le> v then PInf else if v \<le> - (2 ^ 1024) then NInf else Finite v)"

subsection \<open>Array accesses\<close>

definition rd :: "'a list \<Rightarrow> int \<Rightarrow> error + 'a" where
  "rd xs i = (if 0 \<le> i \<and> i < int (length xs) then Inr (xs ! nat i) else Inl Out_Of_Bounds)"

definition wr :: "'a list \<Rightarrow> int \<Rightarrow> 'a \<Rightarrow> error + 'a list" where
  "wr xs i v = (if 0 \<le> i \<and> i < int (length xs) then Inr (xs[nat i := v]) else Inl Out_Of_Bounds)"

definition thenE :: "error + 'a \<Rightarrow> ('a \<Rightarrow> error + 'b) \<Rightarrow> error + 'b" where
  "thenE m f = (case m of Inl e \<Rightarrow> Inl e | Inr v \<Rightarrow> f v)"

subsection \<open>\<^verbatim>\<open>get_min_1d\<close>\<close>

text \<open>
  \<^verbatim>\<open>
  void get_min_1d(double const *X, int N, double *val, int *idx)
  {
      val[0] = INFINITY;
      for (int i = 0; i < N; i++)
          if (X[i] < val[0]) { idx[0] = i; val[0] = X[i]; }
  }
  \<close>
  The two output cells are the pair \<open>(val, idx)\<close>. The function stores into \<open>idx\<close>
  only inside the branch, so the cell keeps what the caller left in it (\<open>idx0\<close>) when
  the branch is never taken: for \<open>N \<le> 0\<close>, and for a vector with no entry below
  \<open>+\<infinity>\<close> (every entry \<open>+\<infinity>\<close> or a NaN).
\<close>

function get_min_loop :: "dval list \<Rightarrow> int \<Rightarrow> int \<Rightarrow> dval \<times> int option \<Rightarrow> error + (dval \<times> int option)" where
  "get_min_loop X N i (val, idx) =
     (if i < N then
        (case rd X i of
           Inl e \<Rightarrow> Inl e
         | Inr Xi \<Rightarrow>
             if lt_dval Xi val then get_min_loop X N (i + 1) (Xi, Some i)
             else get_min_loop X N (i + 1) (val, idx))
      else Inr (val, idx))"
  by pat_completeness auto
termination
  by (relation "measure (\<lambda>(X, N, i, s). nat (N - i))") auto

definition get_min_1d :: "dval list \<Rightarrow> int \<Rightarrow> int option \<Rightarrow> error + (dval \<times> int option)" where
  "get_min_1d X N idx0 = get_min_loop X N 0 (PInf, idx0)"

subsection \<open>\<^verbatim>\<open>update_weights\<close>\<close>

text \<open>
  Step 1, lines 101 to 108: the distance of every node from the sample.
  \<^verbatim>\<open>
  for (j = 0; j < num_out; j++)
  {
      D[j] = 0.f;
      for (k = 0; k < num_features; k++)
          D[j] += (W[j][k] - x[k]) * (W[j][k] - x[k]);
  }
  \<close>
\<close>

definition step1_acc :: "vec \<Rightarrow> mat \<Rightarrow> vec \<Rightarrow> int \<Rightarrow> int \<Rightarrow> error + vec" where
  "step1_acc x W D j k =
     thenE (rd W j) (\<lambda>Wj. thenE (rd Wj k) (\<lambda>Wjk. thenE (rd x k) (\<lambda>xk.
     thenE (rd D j) (\<lambda>Dj. wr D j (Dj + (Wjk - xk) * (Wjk - xk))))))"

function step1_k :: "vec \<Rightarrow> mat \<Rightarrow> vec \<Rightarrow> int \<Rightarrow> int \<Rightarrow> int \<Rightarrow> error + vec" where
  "step1_k x W D num_features j k =
     (if k < num_features then
        (case step1_acc x W D j k of
           Inl e \<Rightarrow> Inl e
         | Inr D' \<Rightarrow> step1_k x W D' num_features j (k + 1))
      else Inr D)"
  by pat_completeness auto
termination
  by (relation "measure (\<lambda>(x, W, D, num_features, j, k). nat (num_features - k))") auto

function step1_j :: "vec \<Rightarrow> mat \<Rightarrow> vec \<Rightarrow> int \<Rightarrow> int \<Rightarrow> int \<Rightarrow> error + vec" where
  "step1_j x W D num_out num_features j =
     (if j < num_out then
        (case wr D j 0 of
           Inl e \<Rightarrow> Inl e
         | Inr D0 \<Rightarrow>
            (case step1_k x W D0 num_features j 0 of
               Inl e \<Rightarrow> Inl e
             | Inr D' \<Rightarrow> step1_j x W D' num_out num_features (j + 1)))
      else Inr D)"
  by pat_completeness auto
termination
  by (relation "measure (\<lambda>(x, W, D, num_out, num_features, j). nat (num_out - j))") auto

definition step1 :: "vec \<Rightarrow> mat \<Rightarrow> vec \<Rightarrow> int \<Rightarrow> int \<Rightarrow> error + vec" where
  "step1 x W D num_out num_features = step1_j x W D num_out num_features 0"

text \<open>
  The value that a sum or difference \<open>v\<close> of two \<^verbatim>\<open>int\<close>s leaves in an \<^verbatim>\<open>int\<close>: \<open>v\<close> itself
  when it fits, \<open>v\<close> wrapped around (two's complement) when it does not.
\<close>

definition c_int :: "int \<Rightarrow> int" where
  "c_int v = (v + 2147483648) mod 4294967296 - 2147483648"

text \<open>
  Step 3a, lines 117 and 118: the neighbourhood of the closest node.
  \<^verbatim>\<open>
  int from_node = 0 > (d_min_idx - R) ? 0 : d_min_idx - R;
  int to_node = num_out < (d_min_idx + R + 1) ? num_out : d_min_idx + R + 1;
  \<close>
  For \<open>to_node\<close>, with \<open>e\<close> the \<^verbatim>\<open>int\<close> that \<^verbatim>\<open>d_min_idx + R\<close> leaves: the test
  \<^verbatim>\<open>num_out < e + 1\<close> on integers is \<open>num_out \<le> e\<close>, and in the other branch \<open>e + 1\<close> is at
  most \<open>num_out\<close>. Where \<open>e + 1\<close> fits an \<^verbatim>\<open>int\<close> this is the expression of the source.
  Where it does not (\<open>e = 2147483647\<close>) C gives the expression no meaning; the
  definition takes \<open>num_out\<close> there, as the machine code does that tests
  \<open>num_out \<le> e\<close>. A sum \<^verbatim>\<open>d_min_idx + R\<close> above \<open>2147483647\<close> wraps around to a negative
  \<open>e\<close>, and \<open>to_node\<close> is \<open>e + 1\<close>.
\<close>

definition from_node :: "int \<Rightarrow> int \<Rightarrow> int" where
  "from_node d_min_idx R = (if 0 > c_int (d_min_idx - R) then 0 else c_int (d_min_idx - R))"

definition to_node :: "int \<Rightarrow> int \<Rightarrow> int \<Rightarrow> int" where
  "to_node num_out d_min_idx R =
     (let e = c_int (d_min_idx + R) in if num_out \<le> e then num_out else e + 1)"

text \<open>
  Step 3b, lines 125 to 128: the weights of the nodes in the neighbourhood.
  \<^verbatim>\<open>
  for (j = from_node; j < to_node; j++)
      for (k = 0; k < num_features; k++)
          W[j][k] += alpha * (x[k] - W[j][k]);
  \<close>
\<close>

definition step3_acc :: "vec \<Rightarrow> mat \<Rightarrow> real \<Rightarrow> int \<Rightarrow> int \<Rightarrow> error + mat" where
  "step3_acc x W alpha j k =
     thenE (rd W j) (\<lambda>Wj. thenE (rd Wj k) (\<lambda>Wjk. thenE (rd x k) (\<lambda>xk.
     thenE (wr Wj k (Wjk + alpha * (xk - Wjk))) (\<lambda>Wj'. wr W j Wj'))))"

function step3_k :: "vec \<Rightarrow> mat \<Rightarrow> int \<Rightarrow> real \<Rightarrow> int \<Rightarrow> int \<Rightarrow> error + mat" where
  "step3_k x W num_features alpha j k =
     (if k < num_features then
        (case step3_acc x W alpha j k of
           Inl e \<Rightarrow> Inl e
         | Inr W' \<Rightarrow> step3_k x W' num_features alpha j (k + 1))
      else Inr W)"
  by pat_completeness auto
termination
  by (relation "measure (\<lambda>(x, W, num_features, alpha, j, k). nat (num_features - k))") auto

function step3_j :: "vec \<Rightarrow> mat \<Rightarrow> int \<Rightarrow> real \<Rightarrow> int \<Rightarrow> int \<Rightarrow> error + mat" where
  "step3_j x W num_features alpha to j =
     (if j < to then
        (case step3_k x W num_features alpha j 0 of
           Inl e \<Rightarrow> Inl e
         | Inr W' \<Rightarrow> step3_j x W' num_features alpha to (j + 1))
      else Inr W)"
  by pat_completeness auto
termination
  by (relation "measure (\<lambda>(x, W, num_features, alpha, to, j). nat (to - j))") auto

definition step3 :: "vec \<Rightarrow> mat \<Rightarrow> int \<Rightarrow> int \<Rightarrow> real \<Rightarrow> int \<Rightarrow> int \<Rightarrow> error + mat" where
  "step3 x W num_out num_features alpha R d_min_idx =
     step3_j x W num_features alpha (to_node num_out d_min_idx R) (from_node d_min_idx R)"

text \<open>
  The whole function, lines 92 to 129. \<^verbatim>\<open>d_min_idx\<close> and \<^verbatim>\<open>d_min\<close> are declared without
  a value and handed to \<^verbatim>\<open>get_min_1d\<close> (step 2),
  \<^verbatim>\<open>
  int d_min_idx;
  double d_min;
  get_min_1d(D, num_out, &d_min, &d_min_idx);
  \<close>
  and step 3 reads \<^verbatim>\<open>d_min_idx\<close> whether \<^verbatim>\<open>get_min_1d\<close> has stored into it or not.

  Two things that the text of the function leaves open are arguments here: \<open>held v\<close>
  is what \<^verbatim>\<open>D[j]\<close> holds of the distance \<open>v\<close> when \<^verbatim>\<open>get_min_1d\<close> compares it, and \<open>slot\<close>
  is what the memory of \<^verbatim>\<open>d_min_idx\<close> holds at its declaration (\<open>None\<close>: nothing that the
  program may use).
\<close>

definition update_weights_with :: "(real \<Rightarrow> dval) \<Rightarrow> int option \<Rightarrow>
    vec \<Rightarrow> mat \<Rightarrow> vec \<Rightarrow> int \<Rightarrow> int \<Rightarrow> real \<Rightarrow> int \<Rightarrow> error + (mat \<times> vec)" where
  "update_weights_with held slot x W D num_out num_features alpha R =
     (case step1 x W D num_out num_features of
        Inl e \<Rightarrow> Inl e
      | Inr D' \<Rightarrow>
         (case get_min_1d (map held D') num_out slot of
            Inl e \<Rightarrow> Inl e
          | Inr (d_min, None) \<Rightarrow> Inl Indeterminate_Value
          | Inr (d_min, Some d_min_idx) \<Rightarrow>
             (case step3 x W num_out num_features alpha R d_min_idx of
                Inl e \<Rightarrow> Inl e
              | Inr W' \<Rightarrow> Inr (W', D'))))"

text \<open>
  The call on distances of any size (every distance is held as the number it is) and
  with nothing in \<^verbatim>\<open>d_min_idx\<close>. This is the call of the training loop below.
\<close>

definition update_weights :: "vec \<Rightarrow> mat \<Rightarrow> vec \<Rightarrow> int \<Rightarrow> int \<Rightarrow> real \<Rightarrow> int \<Rightarrow> error + (mat \<times> vec)" where
  "update_weights x W D num_out num_features alpha R =
     update_weights_with Finite None x W D num_out num_features alpha R"

subsection \<open>\<^verbatim>\<open>kohonen_som_tracer\<close>\<close>

text \<open>
  The loop over the samples, lines 155 to 160.
  \<^verbatim>\<open>
  for (int sample = 0; sample < num_samples; sample++)
  {
      const double *x = X[sample];
      update_weights(x, W, D, num_out, num_features, alpha, R);
  }
  \<close>
\<close>

function sample_loop :: "mat \<Rightarrow> mat \<Rightarrow> vec \<Rightarrow> int \<Rightarrow> int \<Rightarrow> int \<Rightarrow> real \<Rightarrow> int \<Rightarrow> int \<Rightarrow> error + (mat \<times> vec)" where
  "sample_loop X W D num_samples num_features num_out alpha R sample =
     (if sample < num_samples then
        (case rd X sample of
           Inl e \<Rightarrow> Inl e
         | Inr x \<Rightarrow>
            (case update_weights x W D num_out num_features alpha R of
               Inl e \<Rightarrow> Inl e
             | Inr (W', D') \<Rightarrow>
                 sample_loop X W' D' num_samples num_features num_out alpha R (sample + 1)))
      else Inr (W, D))"
  by pat_completeness auto
termination
  by (relation "measure (\<lambda>(X, W, D, num_samples, num_features, num_out, alpha, R, sample).
        nat (num_samples - sample))") auto

text \<open>
  The variables of \<^verbatim>\<open>kohonen_som_tracer\<close> that change during the run: the weights
  behind \<^verbatim>\<open>W\<close>, the buffer \<^verbatim>\<open>D\<close>, and the locals \<^verbatim>\<open>R\<close>, \<^verbatim>\<open>iter\<close>, \<^verbatim>\<open>alpha\<close>.
\<close>

record tracer =
  tr_W :: mat
  tr_D :: vec
  tr_R :: int
  tr_iter :: int
  tr_alpha :: real

text \<open>
  Line 147 to 149. \<^verbatim>\<open>num_out >> 2\<close> is \<open>drop_bit 2 num_out\<close>; \<^verbatim>\<open>malloc\<close> is taken to
  succeed, and the buffer it returns starts as zeros here (step 1 stores \<open>0\<close> in
  \<^verbatim>\<open>D[j]\<close> before it reads it, see \<open>update_weights_buffer\<close> below).
\<close>

definition tracer_init :: "mat \<Rightarrow> int \<Rightarrow> tracer" where
  "tracer_init W num_out =
     \<lparr>tr_W = W, tr_D = replicate (nat num_out) 0, tr_R = drop_bit 2 num_out,
      tr_iter = 0, tr_alpha = 1\<rparr>"

text \<open>
  One outer pass: the body of the loop of line 152, then its increment
  \<^verbatim>\<open>alpha -= 0.01, iter++\<close>. C's \<^verbatim>\<open>iter % 10\<close> is \<open>0\<close> exactly when \<open>iter mod 10\<close> is:
  both say that 10 divides \<open>iter\<close>.
  \<^verbatim>\<open>
  for (; alpha > alpha_min; alpha -= 0.01, iter++)
  {
      for (int sample = 0; ...) ...
      if (iter % 10 == 0 && R > 1)
          R--;
  }
  \<close>
\<close>

definition tracer_pass :: "mat \<Rightarrow> int \<Rightarrow> int \<Rightarrow> int \<Rightarrow> tracer \<Rightarrow> error + tracer" where
  "tracer_pass X num_samples num_features num_out s =
     (case sample_loop X (tr_W s) (tr_D s) num_samples num_features num_out
             (tr_alpha s) (tr_R s) 0 of
        Inl e \<Rightarrow> Inl e
      | Inr (W', D') \<Rightarrow>
          Inr \<lparr>tr_W = W', tr_D = D',
               tr_R = (if tr_iter s mod 10 = 0 \<and> tr_R s > 1 then tr_R s - 1 else tr_R s),
               tr_iter = c_int (tr_iter s + 1),
               tr_alpha = tr_alpha s - 0.01\<rparr>)"

function tracer_loop :: "mat \<Rightarrow> int \<Rightarrow> int \<Rightarrow> int \<Rightarrow> real \<Rightarrow> tracer \<Rightarrow> error + tracer" where
  "tracer_loop X num_samples num_features num_out alpha_min s =
     (if tr_alpha s > alpha_min then
        (case tracer_pass X num_samples num_features num_out s of
           Inl e \<Rightarrow> Inl e
         | Inr s' \<Rightarrow> tracer_loop X num_samples num_features num_out alpha_min s')
      else Inr s)"
  by pat_completeness auto
termination
proof (relation "measure (\<lambda>(X, num_samples, num_features, num_out, alpha_min, s).
          nat \<lceil>(tr_alpha s - alpha_min) * 100\<rceil>)", goal_cases)
  case 1
  show ?case by simp
next
  case (2 X num_samples num_features num_out alpha_min s s')
  have a: "tr_alpha s' = tr_alpha s - 0.01"
    using 2(2) by (auto simp: tracer_pass_def split: sum.splits)
  have e: "(tr_alpha s' - alpha_min) * 100 = (tr_alpha s - alpha_min) * 100 - 1"
    unfolding a by (simp add: algebra_simps)
  have "\<lceil>(tr_alpha s' - alpha_min) * 100\<rceil> = \<lceil>(tr_alpha s - alpha_min) * 100\<rceil> - 1"
    by (simp only: e ceiling_diff_one)
  moreover have "0 < \<lceil>(tr_alpha s - alpha_min) * 100\<rceil>"
    using 2(1) by simp
  ultimately show ?case by simp
qed

text \<open>
  The function itself: it returns nothing, and leaves the trained weights behind \<^verbatim>\<open>W\<close>.
  \<open>tracer_run\<close> also shows the locals at the exit of the loop.
\<close>

definition tracer_run :: "mat \<Rightarrow> mat \<Rightarrow> int \<Rightarrow> int \<Rightarrow> int \<Rightarrow> real \<Rightarrow> error + tracer" where
  "tracer_run X W num_samples num_features num_out alpha_min =
     tracer_loop X num_samples num_features num_out alpha_min (tracer_init W num_out)"

definition kohonen_som_tracer :: "mat \<Rightarrow> mat \<Rightarrow> int \<Rightarrow> int \<Rightarrow> int \<Rightarrow> real \<Rightarrow> error + mat" where
  "kohonen_som_tracer X W num_samples num_features num_out alpha_min =
     (case tracer_run X W num_samples num_features num_out alpha_min of
        Inl e \<Rightarrow> Inl e
      | Inr s \<Rightarrow> Inr (tr_W s))"

section \<open>The learning-rate schedule in binary64 arithmetic\<close>

text \<open>
  The header of the outer loop,
  \<^verbatim>\<open>for (; alpha > alpha_min; alpha -= 0.01, iter++)\<close>,
  on the numbers that a \<^verbatim>\<open>double\<close> holds. The number of passes of the loop hinges on
  the rounding of each subtraction: in exact arithmetic \<open>alpha\<close> meets \<open>0.1\<close> after 90
  steps, on the machine it ends just below or just above.

  A finite binary64 number is \<open>m * 2 ^ e\<close> for integers \<open>m\<close> and \<open>e\<close> with
  \<open>\<bar>m\<bar> < 2 ^ 53\<close> and \<open>e \<ge> - 1074\<close>; the pair \<open>(m, e)\<close> stands for it. The exact
  difference of two such numbers is rounded to the nearest one, and to the one with the
  even significand when two are equally near (the rounding mode in force when a C
  program starts). Expressions of type \<^verbatim>\<open>double\<close> are taken to be evaluated in binary64,
  as on x86-64. The numbers of the schedule lie between \<open>- 1\<close> and \<open>1\<close>, so the upper
  end of the exponent range plays no part.
\<close>

type_synonym b64 = "int \<times> int"

definition b64_val :: "b64 \<Rightarrow> rat" where
  "b64_val d = (case d of (m, e) \<Rightarrow>
     if 0 \<le> e then of_int m * 2 ^ nat e else of_int m / 2 ^ nat (- e))"

text \<open>\<open>m / 2 ^ s\<close> rounded to the nearest integer, ties to the even one.\<close>

definition round_even :: "int \<Rightarrow> int \<Rightarrow> int" where
  "round_even m s =
     (let q = m div 2 ^ nat s; r = m mod 2 ^ nat s; h = 2 ^ nat (s - 1)
      in if r < h then q else if h < r then q + 1 else if even q then q else q + 1)"

text \<open>
  Rounding of an exact result \<open>m * 2 ^ e\<close>: the lowest \<open>s\<close> bits go when \<open>m\<close> has more than
  53 bits or \<open>e\<close> is below \<open>- 1074\<close>.
\<close>

definition b64_round :: "b64 \<Rightarrow> b64" where
  "b64_round d = (case d of (m, e) \<Rightarrow>
     let s = max (bitlen \<bar>m\<bar> - 53) (- 1074 - e)
     in if s \<le> 0 then (m, e) else (round_even m s, e + s))"

definition b64_sub :: "b64 \<Rightarrow> b64 \<Rightarrow> b64" where
  "b64_sub a b = (case a of (m1, e1) \<Rightarrow> case b of (m2, e2) \<Rightarrow>
     let e = min e1 e2 in b64_round (m1 * 2 ^ nat (e1 - e) - m2 * 2 ^ nat (e2 - e), e))"



definition b64_less :: "b64 \<Rightarrow> b64 \<Rightarrow> bool" where
  "b64_less a b = (case a of (m1, e1) \<Rightarrow> case b of (m2, e2) \<Rightarrow>
     let e = min e1 e2 in m1 * 2 ^ nat (e1 - e) < m2 * 2 ^ nat (e2 - e))"

text \<open>
  The literals \<^verbatim>\<open>0.01\<close>, \<^verbatim>\<open>0.1\<close> and \<^verbatim>\<open>1.f\<close> as the compiler stores them (the binary64
  numbers nearest to \<open>1/100\<close> and \<open>1/10\<close>, see \<open>b64_literals\<close>, and \<open>1\<close>).
\<close>

definition b64_0_01 :: b64 where "b64_0_01 = (5764607523034235, - 59)"

definition b64_0_1 :: b64 where "b64_0_1 = (7205759403792794, - 56)"

definition b64_1 :: b64 where "b64_1 = (1, 0)"

text \<open>
  The loop header alone: \<open>alpha\<close> and \<open>iter\<close>. Nothing says beforehand that a loop on
  rounded numbers ends, so the result is an option, \<open>None\<close> for a loop that runs forever.
\<close>

partial_function (option) b64_schedule :: "b64 \<Rightarrow> b64 \<Rightarrow> int \<Rightarrow> (int \<times> b64) option" where
  "b64_schedule alpha_min alpha iter =
     (if b64_less alpha_min alpha
      then b64_schedule alpha_min (b64_sub alpha b64_0_01) (iter + 1)
      else Some (iter, alpha))"

declare b64_schedule.simps [code]


section \<open>Notions used in the statements\<close>

text \<open>
  Well-formed arguments: a matrix has as many rows as its row count says and every row
  has as many entries as the column count says.
\<close>

definition wf_mat :: "mat \<Rightarrow> int \<Rightarrow> int \<Rightarrow> bool" where
  "wf_mat M rows cols = (int (length M) = rows \<and> (\<forall>r\<in>set M. int (length r) = cols))"

definition wf_tracer :: "tracer \<Rightarrow> int \<Rightarrow> int \<Rightarrow> bool" where
  "wf_tracer s num_out num_features =
     (wf_mat (tr_W s) num_out num_features \<and> int (length (tr_D s)) = num_out)"

text \<open>The squared Euclidean distance of a row \<open>w\<close> from the sample \<open>x\<close>.\<close>

definition sq_dist :: "int \<Rightarrow> vec \<Rightarrow> vec \<Rightarrow> real" where
  "sq_dist num_features x w = (\<Sum>k<nat num_features. (w ! k - x ! k)\<^sup>2)"

text \<open>A row after the assignment \<^verbatim>\<open>w[k] += alpha * (x[k] - w[k])\<close> at every \<open>k\<close>.\<close>

definition pull :: "real \<Rightarrow> vec \<Rightarrow> vec \<Rightarrow> vec" where
  "pull alpha x w = map (\<lambda>k. w ! k + alpha * (x ! k - w ! k)) [0..<length w]"

text \<open>The nodes of the neighbourhood \<open>[from_node, to_node)\<close>.\<close>

definition in_window :: "int \<Rightarrow> int \<Rightarrow> int \<Rightarrow> int \<Rightarrow> bool" where
  "in_window num_out d_min_idx R j = (from_node d_min_idx R \<le> j \<and> j < to_node num_out d_min_idx R)"

text \<open>The invariant of the scan of \<open>get_min_1d\<close> in front of index \<open>i\<close>.\<close>

definition min_inv :: "vec \<Rightarrow> nat \<Rightarrow> int option \<Rightarrow> dval \<times> int option \<Rightarrow> bool" where
  "min_inv X i idx0 s =
     (if i = 0 then s = (PInf, idx0)
      else \<exists>m<i. s = (Finite (X ! m), Some (int m)) \<and> (\<forall>j<i. X ! m \<le> X ! j) \<and> (\<forall>j<m. X ! m < X ! j))"

text \<open>The samples of a list handled one after the other, first to last.\<close>

fun run_samples :: "vec list \<Rightarrow> mat \<Rightarrow> vec \<Rightarrow> int \<Rightarrow> int \<Rightarrow> real \<Rightarrow> int \<Rightarrow> error + (mat \<times> vec)" where
  "run_samples [] W D num_out num_features alpha R = Inr (W, D)"
| "run_samples (x # xs) W D num_out num_features alpha R =
     (case update_weights x W D num_out num_features alpha R of
        Inl e \<Rightarrow> Inl e
      | Inr (W', D') \<Rightarrow> run_samples xs W' D' num_out num_features alpha R)"

text \<open>
  The locals after \<open>n\<close> outer passes, without the test of the loop in between.
\<close>

fun after_passes :: "nat \<Rightarrow> mat \<Rightarrow> int \<Rightarrow> int \<Rightarrow> int \<Rightarrow> tracer \<Rightarrow> error + tracer" where
  "after_passes 0 X num_samples num_features num_out s = Inr s"
| "after_passes (Suc n) X num_samples num_features num_out s =
     (case tracer_pass X num_samples num_features num_out s of
        Inl e \<Rightarrow> Inl e
      | Inr s' \<Rightarrow> after_passes n X num_samples num_features num_out s')"

section \<open>The loops, one by one\<close>

declare get_min_loop.simps [simp del] step1_k.simps [simp del] step1_j.simps [simp del]
  step3_k.simps [simp del] step3_j.simps [simp del] sample_loop.simps [simp del]
  tracer_loop.simps [simp del]

subsection \<open>Step 1\<close>

lemma rd_Inr [simp]: "0 \<le> i \<Longrightarrow> i < int (length xs) \<Longrightarrow> rd xs i = Inr (xs ! nat i)"
  by (simp add: rd_def)

lemma wr_Inr [simp]: "0 \<le> i \<Longrightarrow> i < int (length xs) \<Longrightarrow> wr xs i v = Inr (xs[nat i := v])"
  by (simp add: wr_def)

lemma thenE_Inr [simp]: "thenE (Inr v) f = f v"
  by (simp add: thenE_def)

lemma thenE_Inl [simp]: "thenE (Inl e) f = Inl e"
  by (simp add: thenE_def)

lemma step1_k_eq:
  assumes "0 \<le> j" "j < int (length W)" "j < int (length D)" "0 \<le> k"
    "num_features \<le> int (length (W ! nat j))" "num_features \<le> int (length x)"
  shows "step1_k x W D num_features j k =
    Inr (D[nat j := D ! nat j + (\<Sum>i = nat k..<nat num_features. (W ! nat j ! i - x ! i)\<^sup>2)])"
  using assms
proof (induction x W D num_features j k rule: step1_k.induct)
  case (1 x W D num_features j k)
  show ?case
  proof (cases "k < num_features")
    case False
    then have "nat num_features \<le> nat k" by simp
    then show ?thesis using False by (subst step1_k.simps) simp
  next
    case True
    let ?D' = "D[nat j := D ! nat j + (W ! nat j ! nat k - x ! nat k) * (W ! nat j ! nat k - x ! nat k)]"
    have acc: "step1_acc x W D j k = Inr ?D'"
      using True 1(2-) by (simp add: step1_acc_def)
    have ih: "step1_k x W ?D' num_features j (k + 1) =
      Inr (?D'[nat j := ?D' ! nat j + (\<Sum>i = nat (k + 1)..<nat num_features. (W ! nat j ! i - x ! i)\<^sup>2)])"
      using 1(1)[OF True acc] 1(2-) by simp
    have nk: "nat (k + 1) = Suc (nat k)" using 1(5) by simp
    have lt: "nat k < nat num_features" using True 1(5) by simp
    have s: "(\<Sum>i = nat k..<nat num_features. (W ! nat j ! i - x ! i)\<^sup>2) =
      (W ! nat j ! nat k - x ! nat k) * (W ! nat j ! nat k - x ! nat k)
       + (\<Sum>i = Suc (nat k)..<nat num_features. (W ! nat j ! i - x ! i)\<^sup>2)"
      using lt by (simp add: sum.atLeast_Suc_lessThan power2_eq_square)
    have jl: "nat j < length D" using 1(2,4) by simp
    have "step1_k x W D num_features j k = step1_k x W ?D' num_features j (k + 1)"
      by (subst step1_k.simps) (simp add: True acc)
    then show ?thesis
      using jl by (simp add: ih nk s add.assoc)
  qed
qed


lemma step1_j_eq:
  assumes "0 \<le> j" "num_out \<le> int (length W)" "num_out \<le> int (length D)"
    "\<forall>r\<in>set W. num_features \<le> int (length r)" "num_features \<le> int (length x)"
  shows "\<exists>D'. step1_j x W D num_out num_features j = Inr D' \<and> length D' = length D \<and>
    (\<forall>i<length D. D' ! i =
       (if nat j \<le> i \<and> int i < num_out then sq_dist num_features x (W ! i) else D ! i))"
  using assms
proof (induction x W D num_out num_features j rule: step1_j.induct)
  case (1 x W D num_out num_features j)
  show ?case
  proof (cases "j < num_out")
    case False
    then show ?thesis by (subst step1_j.simps) auto
  next
    case True
    let ?D0 = "D[nat j := 0]"
    have jW: "j < int (length W)" and jD: "j < int (length D)"
      using True 1(3,4) by auto
    have w0: "wr D j 0 = Inr ?D0"
      using 1(2) jD by simp
    have row: "num_features \<le> int (length (W ! nat j))"
      using 1(5) jW 1(2) by (simp add: nat_less_iff)
    let ?D1 = "?D0[nat j := ?D0 ! nat j + (\<Sum>i = nat 0..<nat num_features. (W ! nat j ! i - x ! i)\<^sup>2)]"
    have k: "step1_k x W ?D0 num_features j 0 = Inr ?D1"
      using step1_k_eq[of j W ?D0 0 num_features x] 1(2) jW jD row 1(6) by simp
    have d1: "?D1 = D[nat j := sq_dist num_features x (W ! nat j)]"
      using jD 1(2) by (simp add: sq_dist_def atLeast0LessThan nat_less_iff)
    obtain D' where D': "step1_j x W ?D1 num_out num_features (j + 1) = Inr D'"
      "length D' = length ?D1"
      "\<forall>i<length ?D1. D' ! i =
         (if nat (j + 1) \<le> i \<and> int i < num_out then sq_dist num_features x (W ! i) else ?D1 ! i)"
      using 1(1)[OF True w0 k] 1(2-) by auto
    have unf: "step1_j x W D num_out num_features j = step1_j x W ?D1 num_out num_features (j + 1)"
      by (subst step1_j.simps) (simp add: True w0 k)
    have nj: "nat (j + 1) = Suc (nat j)" using 1(2) by simp
    have "\<forall>i<length D. D' ! i =
       (if nat j \<le> i \<and> int i < num_out then sq_dist num_features x (W ! i) else D ! i)"
    proof (intro allI impI)
      fix i assume i: "i < length D"
      show "D' ! i = (if nat j \<le> i \<and> int i < num_out then sq_dist num_features x (W ! i) else D ! i)"
      proof (cases "i = nat j")
        case True
        then show ?thesis using D'(3) i \<open>j < num_out\<close> 1(2) unfolding d1 nj by simp
      next
        case False
        then show ?thesis using D'(3) i unfolding d1 nj by auto
      qed
    qed
    then show ?thesis using D'(1,2) unf by simp
  qed
qed

lemma step1_eq:
  assumes "int (length W) = num_out" "int (length D) = num_out"
    "\<forall>r\<in>set W. num_features \<le> int (length r)" "num_features \<le> int (length x)"
  shows "step1 x W D num_out num_features = Inr (map (sq_dist num_features x) W)"
proof -
  obtain D' where D': "step1_j x W D num_out num_features 0 = Inr D'" "length D' = length D"
    "\<forall>i<length D. D' ! i =
       (if nat 0 \<le> i \<and> int i < num_out then sq_dist num_features x (W ! i) else D ! i)"
    using step1_j_eq[of 0 num_out W D num_features x] assms by auto
  have "D' = map (sq_dist num_features x) W"
    using D'(2,3) assms(1,2) by (intro nth_equalityI) auto
  then show ?thesis using D'(1) by (simp add: step1_def)
qed

subsection \<open>The scan for the minimum\<close>

lemma get_min_loop_inv:
  assumes "0 \<le> i" "i \<le> N" "N \<le> int (length X)" "min_inv X (nat i) idx0 s"
  shows "\<exists>s'. get_min_loop (map Finite X) N i s = Inr s' \<and> min_inv X (nat N) idx0 s'"
  using assms
proof (induction "map Finite X" N i s rule: get_min_loop.induct)
  case (1 N i val idx)
  show ?case
  proof (cases "i < N")
    case False
    then have "i = N" using 1(4) by simp
    then show ?thesis using 1(6) by (subst get_min_loop.simps) simp
  next
    case True
    have r: "rd (map Finite X) i = Inr (Finite (X ! nat i))" using True 1(3,5) by simp
    have ni: "nat (i + 1) = Suc (nat i)" using 1(3) by simp
    show ?thesis
    proof (cases "lt_dval (Finite (X ! nat i)) val")
      case lt: True
      have inv': "min_inv X (nat (i + 1)) idx0 (Finite (X ! nat i), Some i)"
      proof -
        have "\<forall>j<Suc (nat i). X ! nat i \<le> X ! j"
        proof (cases "nat i = 0")
          case True then show ?thesis by simp
        next
          case False
          then obtain m where m: "m < nat i" "val = Finite (X ! m)" "\<forall>j<nat i. X ! m \<le> X ! j"
            using 1(6) by (auto simp: min_inv_def)
          then have "X ! nat i < X ! m" using lt by simp
          then show ?thesis using m(3) by (auto simp: less_Suc_eq intro: order.trans less_imp_le)
        qed
        moreover have "\<forall>j<nat i. X ! nat i < X ! j"
        proof (cases "nat i = 0")
          case True then show ?thesis by simp
        next
          case False
          then obtain m where m: "m < nat i" "val = Finite (X ! m)" "\<forall>j<nat i. X ! m \<le> X ! j"
            using 1(6) by (auto simp: min_inv_def)
          then have "X ! nat i < X ! m" using lt by simp
          then show ?thesis using m(3) by (auto intro: less_le_trans)
        qed
        ultimately show ?thesis using 1(3) unfolding ni min_inv_def
          by (auto intro!: exI[of _ "nat i"])
      qed
      have "get_min_loop (map Finite X) N i (val, idx) =
          get_min_loop (map Finite X) N (i + 1) (Finite (X ! nat i), Some i)"
        by (subst get_min_loop.simps) (simp add: True r lt)
      then show ?thesis
        using 1(1)[OF True r lt _ _ 1(5) inv'] 1(3) True by simp
    next
      case nlt: False
      have i0: "nat i \<noteq> 0"
      proof
        assume "nat i = 0"
        then have "val = PInf" using 1(6) by (simp add: min_inv_def)
        then show False using nlt by simp
      qed
      then obtain m where m: "m < nat i" "(val, idx) = (Finite (X ! m), Some (int m))"
        "\<forall>j<nat i. X ! m \<le> X ! j" "\<forall>j<m. X ! m < X ! j"
        using 1(6) by (auto simp: min_inv_def)
      have "X ! m \<le> X ! nat i" using m(2) nlt by simp
      then have inv': "min_inv X (nat (i + 1)) idx0 (val, idx)"
        unfolding ni min_inv_def using m by (auto simp: less_Suc_eq intro!: exI[of _ m])
      have "get_min_loop (map Finite X) N i (val, idx) = get_min_loop (map Finite X) N (i + 1) (val, idx)"
        by (subst get_min_loop.simps) (simp add: True r nlt)
      then show ?thesis
        using 1(2)[OF True r nlt _ _ 1(5) inv'] 1(3) True by simp
    qed
  qed
qed

lemma get_min_1d_eq:
  assumes "N = int (length X)" "1 \<le> N"
  shows "\<exists>m<length X. get_min_1d (map Finite X) N idx0 = Inr (Finite (X ! m), Some (int m)) \<and>
     (\<forall>j<length X. X ! m \<le> X ! j) \<and> (\<forall>j<m. X ! m < X ! j)"
proof -
  have "min_inv X (nat 0) idx0 (PInf, idx0)" by (simp add: min_inv_def)
  then obtain s' where s': "get_min_loop (map Finite X) N 0 (PInf, idx0) = Inr s'" "min_inv X (nat N) idx0 s'"
    using get_min_loop_inv[of 0 N X idx0 "(PInf, idx0)"] assms by auto
  have "nat N = length X" "length X \<noteq> 0" using assms by auto
  then show ?thesis using s' by (auto simp: min_inv_def get_min_1d_def)
qed

lemma get_min_1d_empty: "N \<le> 0 \<Longrightarrow> get_min_1d X N idx0 = Inr (PInf, idx0)"
  by (simp add: get_min_1d_def get_min_loop.simps)

text \<open>
  The distances that step 1 leaves are held as they are when each of them is below
  \<open>2\<^sup>1\<^sup>0\<^sup>2\<^sup>4\<close> (none of them is negative).
\<close>

lemma dbl_Finite: "- (2 ^ 1024) < v \<Longrightarrow> v < 2 ^ 1024 \<Longrightarrow> dbl v = Finite v"
  by (simp add: dbl_def)

subsection \<open>Step 3\<close>

lemma step3_k_eq:
  assumes "0 \<le> j" "j < int (length W)" "0 \<le> k"
    "num_features \<le> int (length (W ! nat j))" "num_features \<le> int (length x)"
  shows "\<exists>W'. step3_k x W num_features alpha j k = Inr W' \<and> length W' = length W \<and>
    (\<forall>i<length W. i \<noteq> nat j \<longrightarrow> W' ! i = W ! i) \<and>
    length (W' ! nat j) = length (W ! nat j) \<and>
    (\<forall>c<length (W ! nat j). W' ! nat j ! c =
       (if nat k \<le> c \<and> int c < num_features
        then W ! nat j ! c + alpha * (x ! c - W ! nat j ! c) else W ! nat j ! c))"
  using assms
proof (induction x W num_features alpha j k rule: step3_k.induct)
  case (1 x W num_features alpha j k)
  show ?case
  proof (cases "k < num_features")
    case False
    then show ?thesis by (subst step3_k.simps) auto
  next
    case True
    let ?r = "W ! nat j"
    let ?r' = "?r[nat k := ?r ! nat k + alpha * (x ! nat k - ?r ! nat k)]"
    let ?W1 = "W[nat j := ?r']"
    have jl: "nat j < length W" using 1(2,3) by simp
    have acc: "step3_acc x W alpha j k = Inr ?W1"
      using True 1(2-) by (simp add: step3_acc_def)
    have row1: "?W1 ! nat j = ?r'" using jl by simp
    obtain W' where W': "step3_k x ?W1 num_features alpha j (k + 1) = Inr W'"
      "length W' = length ?W1"
      "\<forall>i<length ?W1. i \<noteq> nat j \<longrightarrow> W' ! i = ?W1 ! i"
      "length (W' ! nat j) = length (?W1 ! nat j)"
      "\<forall>c<length (?W1 ! nat j). W' ! nat j ! c =
         (if nat (k + 1) \<le> c \<and> int c < num_features
          then ?W1 ! nat j ! c + alpha * (x ! c - ?W1 ! nat j ! c) else ?W1 ! nat j ! c)"
      using 1(1)[OF True acc] 1(2-) jl by auto
    have nk: "nat (k + 1) = Suc (nat k)" using 1(4) by simp
    have unf: "step3_k x W num_features alpha j k = step3_k x ?W1 num_features alpha j (k + 1)"
      by (subst step3_k.simps) (simp add: True acc)
    have "\<forall>c<length ?r. W' ! nat j ! c =
       (if nat k \<le> c \<and> int c < num_features then ?r ! c + alpha * (x ! c - ?r ! c) else ?r ! c)"
    proof (intro allI impI)
      fix c assume c: "c < length ?r"
      show "W' ! nat j ! c =
        (if nat k \<le> c \<and> int c < num_features then ?r ! c + alpha * (x ! c - ?r ! c) else ?r ! c)"
      proof (cases "c = nat k")
        case True
        then show ?thesis using W'(5) c \<open>k < num_features\<close> 1(4) unfolding row1 nk by simp
      next
        case False
        then show ?thesis using W'(5) c unfolding row1 nk by auto
      qed
    qed
    then show ?thesis using W'(1-4) unf jl by simp
  qed
qed

lemma step3_k_row:
  assumes "0 \<le> j" "j < int (length W)"
    "num_features = int (length (W ! nat j))" "num_features \<le> int (length x)"
  shows "step3_k x W num_features alpha j 0 = Inr (W[nat j := pull alpha x (W ! nat j)])"
proof -
  obtain W' where W': "step3_k x W num_features alpha j 0 = Inr W'" "length W' = length W"
    "\<forall>i<length W. i \<noteq> nat j \<longrightarrow> W' ! i = W ! i"
    "length (W' ! nat j) = length (W ! nat j)"
    "\<forall>c<length (W ! nat j). W' ! nat j ! c =
       (if nat 0 \<le> c \<and> int c < num_features
        then W ! nat j ! c + alpha * (x ! c - W ! nat j ! c) else W ! nat j ! c)"
    using step3_k_eq[of j W 0 num_features x alpha] assms by auto
  have row: "W' ! nat j = pull alpha x (W ! nat j)"
    using W'(4,5) assms(3) by (intro nth_equalityI) (auto simp: pull_def)
  have "W' = W[nat j := pull alpha x (W ! nat j)]"
  proof (rule nth_equalityI)
    show "length W' = length (W[nat j := pull alpha x (W ! nat j)])" using W'(2) by simp
  next
    fix i assume "i < length W'"
    then have i: "i < length W" using W'(2) by simp
    show "W' ! i = W[nat j := pull alpha x (W ! nat j)] ! i"
    proof (cases "i = nat j")
      case True
      then show ?thesis using i row by simp
    next
      case False
      then show ?thesis using i W'(3) by simp
    qed
  qed
  then show ?thesis using W'(1) by simp
qed

lemma length_pull [simp]: "length (pull alpha x w) = length w"
  by (simp add: pull_def)

lemma step3_j_eq:
  assumes "0 \<le> j" "to \<le> int (length W)"
    "\<forall>r\<in>set W. int (length r) = num_features" "num_features \<le> int (length x)"
  shows "step3_j x W num_features alpha to j =
    Inr (map (\<lambda>i. if nat j \<le> i \<and> int i < to then pull alpha x (W ! i) else W ! i) [0..<length W])"
  using assms
proof (induction x W num_features alpha to j rule: step3_j.induct)
  case (1 x W num_features alpha to j)
  show ?case
  proof (cases "j < to")
    case False
    then have "map (\<lambda>i. if nat j \<le> i \<and> int i < to then pull alpha x (W ! i) else W ! i) [0..<length W] = W"
      using False by (intro nth_equalityI) auto
    then show ?thesis using False by (subst step3_j.simps) simp
  next
    case True
    let ?W1 = "W[nat j := pull alpha x (W ! nat j)]"
    have jl: "j < int (length W)" using True 1(3) by simp
    then have njl: "nat j < length W" using 1(2) by simp
    have k: "step3_k x W num_features alpha j 0 = Inr ?W1"
      using step3_k_row[of j W num_features x alpha] 1(2,4,5) jl njl by simp
    have rows1: "\<forall>r\<in>set ?W1. int (length r) = num_features"
      using 1(4) njl by (auto simp: set_conv_nth nth_list_update)
    have ih: "step3_j x ?W1 num_features alpha to (j + 1) =
      Inr (map (\<lambda>i. if nat (j + 1) \<le> i \<and> int i < to then pull alpha x (?W1 ! i) else ?W1 ! i) [0..<length ?W1])"
      using 1(1)[OF True k _ _ rows1 1(5)] 1(2,3) by simp
    have nj: "nat (j + 1) = Suc (nat j)" using 1(2) by simp
    have unf: "step3_j x W num_features alpha to j = step3_j x ?W1 num_features alpha to (j + 1)"
      by (subst step3_j.simps) (simp add: True k)
    have "map (\<lambda>i. if Suc (nat j) \<le> i \<and> int i < to then pull alpha x (?W1 ! i) else ?W1 ! i) [0..<length ?W1]
      = map (\<lambda>i. if nat j \<le> i \<and> int i < to then pull alpha x (W ! i) else W ! i) [0..<length W]"
    proof (rule nth_equalityI)
      fix i assume "i < length (map (\<lambda>i. if Suc (nat j) \<le> i \<and> int i < to then pull alpha x (?W1 ! i) else ?W1 ! i) [0..<length ?W1])"
      then have i: "i < length W" by simp
      have "Suc (nat j) \<le> i \<or> i = nat j \<or> i < nat j" by arith
      then show "map (\<lambda>i. if Suc (nat j) \<le> i \<and> int i < to then pull alpha x (?W1 ! i) else ?W1 ! i) [0..<length ?W1] ! i
        = map (\<lambda>i. if nat j \<le> i \<and> int i < to then pull alpha x (W ! i) else W ! i) [0..<length W] ! i"
        using i True 1(2) by (auto simp: nth_list_update)
    qed simp
    then show ?thesis using unf ih unfolding nj by simp
  qed
qed

subsection \<open>One call of \<open>update_weights\<close>, and one pass over the samples\<close>

lemma c_int_id: "- 2147483648 \<le> v \<Longrightarrow> v \<le> 2147483647 \<Longrightarrow> c_int v = v"
  by (simp add: c_int_def)

lemma from_node_max:
  "- 2147483648 \<le> d_min_idx - R \<Longrightarrow> d_min_idx - R \<le> 2147483647 \<Longrightarrow>
   from_node d_min_idx R = max 0 (d_min_idx - R)"
  by (simp add: from_node_def max_def c_int_id)

lemma to_node_min:
  "- 2147483648 \<le> d_min_idx + R \<Longrightarrow> d_min_idx + R \<le> 2147483647 \<Longrightarrow>
   to_node num_out d_min_idx R = min num_out (d_min_idx + R + 1)"
  by (simp add: to_node_def min_def c_int_id Let_def)

lemma from_node_ge: "0 \<le> from_node d_min_idx R"
  by (simp add: from_node_def)

lemma to_node_le: "to_node num_out d_min_idx R \<le> num_out"
  by (simp add: to_node_def Let_def)

lemma step3_eq:
  assumes "wf_mat W num_out num_features" "num_features \<le> int (length x)"
  shows "step3 x W num_out num_features alpha R d_min_idx =
    Inr (map (\<lambda>i. if in_window num_out d_min_idx R (int i) then pull alpha x (W ! i) else W ! i)
          [0..<length W])"
proof -
  have f: "0 \<le> from_node d_min_idx R" by (simp add: from_node_def)
  have t: "to_node num_out d_min_idx R \<le> int (length W)"
    using assms(1) to_node_le[of num_out d_min_idx R] by (simp add: wf_mat_def)
  have "\<And>i. (nat (from_node d_min_idx R) \<le> i \<and> int i < to_node num_out d_min_idx R)
     = in_window num_out d_min_idx R (int i)"
    using f by (auto simp: in_window_def)
  then show ?thesis
    using step3_j_eq[OF f t, of num_features x alpha] assms by (simp add: step3_def wf_mat_def)
qed

lemma wf_mat_step3:
  assumes "wf_mat W num_out num_features"
  shows "wf_mat (map (\<lambda>i. if P i then pull alpha x (W ! i) else W ! i) [0..<length W])
           num_out num_features"
  using assms by (auto simp: wf_mat_def)

lemma update_weights_eq:
  assumes "wf_mat W num_out num_features" "int (length x) = num_features"
    "int (length D) = num_out" "1 \<le> num_out"
  shows "\<exists>m<length W.
     (\<forall>j<length W. sq_dist num_features x (W ! m) \<le> sq_dist num_features x (W ! j)) \<and>
     (\<forall>j<m. sq_dist num_features x (W ! m) < sq_dist num_features x (W ! j)) \<and>
     update_weights x W D num_out num_features alpha R =
       Inr (map (\<lambda>i. if in_window num_out (int m) R (int i) then pull alpha x (W ! i) else W ! i)
              [0..<length W],
            map (sq_dist num_features x) W)"
proof -
  let ?D = "map (sq_dist num_features x) W"
  have s1: "step1 x W D num_out num_features = Inr ?D"
    using assms by (intro step1_eq) (auto simp: wf_mat_def)
  have "num_out = int (length ?D)" using assms(1) by (simp add: wf_mat_def)
  from get_min_1d_eq[OF this assms(4), of None]
  obtain m where m: "m < length W"
    "get_min_1d (map Finite ?D) num_out None = Inr (Finite (?D ! m), Some (int m))"
    "\<forall>j<length W. ?D ! m \<le> ?D ! j" "\<forall>j<m. ?D ! m < ?D ! j"
    by auto
  have s3: "step3 x W num_out num_features alpha R (int m) =
    Inr (map (\<lambda>i. if in_window num_out (int m) R (int i) then pull alpha x (W ! i) else W ! i)
          [0..<length W])"
    using assms by (intro step3_eq) auto
  have "update_weights x W D num_out num_features alpha R =
       Inr (map (\<lambda>i. if in_window num_out (int m) R (int i) then pull alpha x (W ! i) else W ! i)
              [0..<length W], ?D)"
    using m(2) by (simp add: update_weights_def update_weights_with_def s1 s3)
  moreover have "\<forall>j<length W. sq_dist num_features x (W ! m) \<le> sq_dist num_features x (W ! j)"
    using m(1,3) by simp
  moreover have "\<forall>j<m. sq_dist num_features x (W ! m) < sq_dist num_features x (W ! j)"
    using m(1,4) by simp
  ultimately show ?thesis using m(1) by blast
qed

lemma update_weights_wf:
  assumes "wf_mat W num_out num_features" "int (length x) = num_features"
    "int (length D) = num_out" "1 \<le> num_out"
  shows "\<exists>W' D'. update_weights x W D num_out num_features alpha R = Inr (W', D') \<and>
     wf_mat W' num_out num_features \<and> int (length D') = num_out"
proof -
  from update_weights_eq[OF assms, of alpha R] obtain m where
    "update_weights x W D num_out num_features alpha R =
       Inr (map (\<lambda>i. if in_window num_out (int m) R (int i) then pull alpha x (W ! i) else W ! i)
              [0..<length W],
            map (sq_dist num_features x) W)" by blast
  moreover have "int (length (map (sq_dist num_features x) W)) = num_out"
    using assms(1) by (simp add: wf_mat_def)
  moreover have "wf_mat (map (\<lambda>i. if in_window num_out (int m) R (int i) then pull alpha x (W ! i) else W ! i)
              [0..<length W]) num_out num_features"
    by (rule wf_mat_step3[OF assms(1)])
  ultimately show ?thesis by simp
qed

lemma update_weights_buffer:
  assumes "wf_mat W num_out num_features" "int (length x) = num_features"
    "int (length D1) = num_out" "int (length D2) = num_out"
  shows "update_weights x W D1 num_out num_features alpha R =
     update_weights x W D2 num_out num_features alpha R"
proof -
  have "step1 x W D1 num_out num_features = step1 x W D2 num_out num_features"
    using step1_eq[of W num_out _ num_features x] assms by (simp add: wf_mat_def)
  then show ?thesis by (simp add: update_weights_def update_weights_with_def)
qed

lemma window_in_int_range:
  assumes "0 \<le> d_min_idx" "d_min_idx < num_out" "0 \<le> R" "R \<le> num_out div 4"
    "num_out \<le> 1717986917"
  shows "- 2147483648 \<le> d_min_idx - R \<and> d_min_idx + R + 1 \<le> (2147483647 :: int)"
  using assms by linarith

lemma sample_loop_run_samples:
  assumes "0 \<le> sample" "num_samples = int (length X)"
  shows "sample_loop X W D num_samples num_features num_out alpha R sample =
     run_samples (drop (nat sample) X) W D num_out num_features alpha R"
  using assms
proof (induction X W D num_samples num_features num_out alpha R sample rule: sample_loop.induct)
  case (1 X W D num_samples num_features num_out alpha R sample)
  show ?case
  proof (cases "sample < num_samples")
    case False
    then show ?thesis using 1(3) by (subst sample_loop.simps) simp
  next
    case True
    then have lt: "nat sample < length X" using 1(2,3) by simp
    have r: "rd X sample = Inr (X ! nat sample)" using True 1(2,3) by simp
    have d: "drop (nat sample) X = X ! nat sample # drop (nat (sample + 1)) X"
      using lt 1(2) by (simp add: Cons_nth_drop_Suc nat_add_distrib)
    show ?thesis
    proof (cases "update_weights (X ! nat sample) W D num_out num_features alpha R")
      case (Inl e)
      then show ?thesis by (subst sample_loop.simps) (simp add: True r d)
    next
      case (Inr p)
      obtain W' D' where p: "p = (W', D')" by (cases p)
      have "sample_loop X W D num_samples num_features num_out alpha R sample =
        sample_loop X W' D' num_samples num_features num_out alpha R (sample + 1)"
        by (subst sample_loop.simps) (simp add: True r Inr p)
      also have "\<dots> = run_samples (drop (nat (sample + 1)) X) W' D' num_out num_features alpha R"
        using 1(1)[OF True r Inr[unfolded p] refl] 1(2,3) by simp
      finally show ?thesis by (simp add: d Inr p)
    qed
  qed
qed

lemma run_samples_wf:
  assumes "\<forall>x\<in>set xs. int (length x) = num_features" "wf_mat W num_out num_features"
    "int (length D) = num_out" "1 \<le> num_out"
  shows "\<exists>W' D'. run_samples xs W D num_out num_features alpha R = Inr (W', D') \<and>
     wf_mat W' num_out num_features \<and> int (length D') = num_out"
  using assms
proof (induction xs arbitrary: W D)
  case Nil
  then show ?case by simp
next
  case (Cons x xs)
  obtain W1 D1 where u: "update_weights x W D num_out num_features alpha R = Inr (W1, D1)"
    "wf_mat W1 num_out num_features" "int (length D1) = num_out"
    using update_weights_wf[of W num_out num_features x D alpha R] Cons.prems by auto
  show ?case using Cons.IH[OF _ u(2,3) Cons.prems(4)] Cons.prems(1) u(1) by simp
qed

subsection \<open>The outer loop\<close>

lemma tracer_pass_locals:
  assumes "tracer_pass X num_samples num_features num_out s = Inr s'"
  shows "tr_alpha s' = tr_alpha s - 0.01" "tr_iter s' = c_int (tr_iter s + 1)"
    "tr_R s' = (if tr_iter s mod 10 = 0 \<and> tr_R s > 1 then tr_R s - 1 else tr_R s)"
  using assms by (auto simp: tracer_pass_def split: sum.splits)

lemma tracer_pass_wf:
  assumes "wf_mat X num_samples num_features" "wf_tracer s num_out num_features" "1 \<le> num_out"
  shows "\<exists>s'. tracer_pass X num_samples num_features num_out s = Inr s' \<and>
     wf_tracer s' num_out num_features"
proof -
  have "sample_loop X (tr_W s) (tr_D s) num_samples num_features num_out (tr_alpha s) (tr_R s) 0
    = run_samples X (tr_W s) (tr_D s) num_out num_features (tr_alpha s) (tr_R s)"
    using sample_loop_run_samples[of 0 num_samples X] assms(1) by (simp add: wf_mat_def)
  moreover obtain W' D' where
    "run_samples X (tr_W s) (tr_D s) num_out num_features (tr_alpha s) (tr_R s) = Inr (W', D')"
    "wf_mat W' num_out num_features" "int (length D') = num_out"
    using run_samples_wf[of X num_features "tr_W s" num_out "tr_D s" "tr_alpha s" "tr_R s"] assms
    by (auto simp: wf_mat_def wf_tracer_def)
  ultimately show ?thesis by (simp add: tracer_pass_def wf_tracer_def)
qed

lemma after_passes_wf:
  assumes "wf_mat X num_samples num_features" "wf_tracer s num_out num_features" "1 \<le> num_out"
  shows "\<exists>s'. after_passes n X num_samples num_features num_out s = Inr s' \<and>
     wf_tracer s' num_out num_features"
  using assms(2)
proof (induction n arbitrary: s)
  case 0
  then show ?case by simp
next
  case (Suc n)
  obtain s1 where "tracer_pass X num_samples num_features num_out s = Inr s1"
    "wf_tracer s1 num_out num_features"
    using tracer_pass_wf[OF assms(1) Suc.prems assms(3)] by blast
  then show ?case using Suc.IH[of s1] by simp
qed

lemma after_passes_alpha:
  assumes "after_passes n X num_samples num_features num_out s = Inr s'"
  shows "tr_alpha s' = tr_alpha s - real n / 100"
  using assms
proof (induction n arbitrary: s)
  case 0
  then show ?case by simp
next
  case (Suc n)
  then obtain s1 where s1: "tracer_pass X num_samples num_features num_out s = Inr s1"
    "after_passes n X num_samples num_features num_out s1 = Inr s'"
    by (auto split: sum.splits)
  show ?case using Suc.IH[OF s1(2)] tracer_pass_locals(1)[OF s1(1)] by (simp add: field_simps)
qed

lemma after_passes_iter:
  assumes "after_passes n X num_samples num_features num_out s = Inr s'"
    "0 \<le> tr_iter s" "tr_iter s + int n \<le> 2147483647"
  shows "tr_iter s' = tr_iter s + int n"
  using assms
proof (induction n arbitrary: s)
  case 0
  then show ?case by simp
next
  case (Suc n)
  then obtain s1 where s1: "tracer_pass X num_samples num_features num_out s = Inr s1"
    "after_passes n X num_samples num_features num_out s1 = Inr s'"
    by (auto split: sum.splits)
  have i1: "tr_iter s1 = tr_iter s + 1"
    using tracer_pass_locals(2)[OF s1(1)] Suc.prems(2,3) by (simp add: c_int_id)
  show ?case using Suc.IH[OF s1(2)] i1 Suc.prems(2,3) by simp
qed

lemma after_passes_add:
  assumes "after_passes m X num_samples num_features num_out s = Inr s1"
  shows "after_passes (m + n) X num_samples num_features num_out s =
     after_passes n X num_samples num_features num_out s1"
  using assms by (induction m arbitrary: s) (auto split: sum.splits)

lemma after_passes_prefix:
  assumes "after_passes n X num_samples num_features num_out s = Inr s'" "k \<le> n"
  shows "\<exists>sk. after_passes k X num_samples num_features num_out s = Inr sk"
  using assms
proof (induction k arbitrary: s n)
  case 0
  then show ?case by simp
next
  case (Suc k)
  then obtain n' where n: "n = Suc n'" by (cases n) auto
  then obtain s1 where s1: "tracer_pass X num_samples num_features num_out s = Inr s1"
    "after_passes n' X num_samples num_features num_out s1 = Inr s'"
    using Suc.prems(1) by (auto split: sum.splits)
  show ?case using Suc.IH[OF s1(2)] Suc.prems(2) n s1(1) by simp
qed

text \<open>The loop leaves at the first pass count at which the test fails.\<close>

lemma tracer_loop_exit:
  assumes "after_passes n X num_samples num_features num_out s = Inr s'"
    "tr_alpha s - real n / 100 \<le> alpha_min"
    "\<forall>k<n. alpha_min < tr_alpha s - real k / 100"
  shows "tracer_loop X num_samples num_features num_out alpha_min s = Inr s'"
  using assms
proof (induction n arbitrary: s)
  case 0
  then show ?case by (subst tracer_loop.simps) simp
next
  case (Suc n)
  obtain s1 where s1: "tracer_pass X num_samples num_features num_out s = Inr s1"
    "after_passes n X num_samples num_features num_out s1 = Inr s'"
    using Suc.prems(1) by (auto split: sum.splits)
  have a1: "tr_alpha s1 = tr_alpha s - 0.01" by (rule tracer_pass_locals(1)[OF s1(1)])
  have gt: "alpha_min < tr_alpha s" using Suc.prems(3) by force
  have "tr_alpha s1 - real n / 100 \<le> alpha_min"
    using Suc.prems(2) unfolding a1 by (simp add: field_simps)
  moreover have "\<forall>k<n. alpha_min < tr_alpha s1 - real k / 100"
  proof (intro allI impI)
    fix k assume "k < n"
    then have "Suc k < Suc n" by simp
    then have "alpha_min < tr_alpha s - real (Suc k) / 100" using Suc.prems(3) by blast
    then show "alpha_min < tr_alpha s1 - real k / 100" unfolding a1 by (simp add: field_simps)
  qed
  ultimately have "tracer_loop X num_samples num_features num_out alpha_min s1 = Inr s'"
    using Suc.IH[OF s1(2)] by simp
  then show ?case using gt s1(1) by (subst tracer_loop.simps) simp
qed

text \<open>Every run that ends has made some number of passes, and has passed the test before each.\<close>

lemma tracer_loop_passes:
  assumes "tracer_loop X num_samples num_features num_out alpha_min s = Inr s'"
  shows "\<exists>n. after_passes n X num_samples num_features num_out s = Inr s' \<and>
     \<not> alpha_min < tr_alpha s' \<and>
     (\<forall>k<n. \<exists>sk. after_passes k X num_samples num_features num_out s = Inr sk \<and>
        alpha_min < tr_alpha sk)"
  using assms
proof (induction X num_samples num_features num_out alpha_min s rule: tracer_loop.induct)
  case (1 X num_samples num_features num_out alpha_min s)
  show ?case
  proof (cases "alpha_min < tr_alpha s")
    case False
    then have "s' = s" using 1(2) by (subst (asm) tracer_loop.simps) simp
    then have "after_passes 0 X num_samples num_features num_out s = Inr s' \<and>
      \<not> alpha_min < tr_alpha s' \<and>
      (\<forall>k<0. \<exists>sk. after_passes k X num_samples num_features num_out s = Inr sk \<and>
        alpha_min < tr_alpha sk)"
      using False by simp
    then show ?thesis by blast
  next
    case True
    then obtain s1 where s1: "tracer_pass X num_samples num_features num_out s = Inr s1"
      "tracer_loop X num_samples num_features num_out alpha_min s1 = Inr s'"
      using 1(2) by (subst (asm) tracer_loop.simps) (auto split: sum.splits)
    from 1(1)[OF True s1(1) s1(2)] obtain n where
      n: "after_passes n X num_samples num_features num_out s1 = Inr s'"
        "\<not> alpha_min < tr_alpha s'"
        "\<forall>k<n. \<exists>sk. after_passes k X num_samples num_features num_out s1 = Inr sk \<and>
          alpha_min < tr_alpha sk"
      by blast
    have a: "after_passes (Suc n) X num_samples num_features num_out s = Inr s'"
      using s1(1) n(1) by simp
    have b: "\<forall>k<Suc n. \<exists>sk. after_passes k X num_samples num_features num_out s = Inr sk \<and>
        alpha_min < tr_alpha sk"
    proof (intro allI impI)
      fix k assume k: "k < Suc n"
      show "\<exists>sk. after_passes k X num_samples num_features num_out s = Inr sk \<and>
        alpha_min < tr_alpha sk"
      proof (cases k)
        case 0
        then show ?thesis using True by simp
      next
        case (Suc k')
        then have "k' < n" using k by simp
        then show ?thesis using n(3) s1(1) Suc by simp
      qed
    qed
    show ?thesis using a b n(2) by blast
  qed
qed

section \<open>The claims\<close>

text \<open>
  C1. For a sample \<open>x\<close> of \<open>num_features\<close> numbers and a weight matrix \<open>W\<close> of \<open>num_out\<close>
  rows, step 1 of \<open>update_weights\<close> leaves in \<open>D\<close> a vector of \<open>num_out\<close> numbers, and
  \<open>D[j]\<close> is the sum over \<open>k\<close> of \<open>(W[j][k] - x[k])\<^sup>2\<close>, the squared Euclidean distance of
  node \<open>j\<close> from \<open>x\<close>, for every node \<open>j\<close>. This is the vector that the whole call returns
  in \<open>D\<close>, whatever the buffer held before.
\<close>

theorem step1_squared_distances:
  assumes "wf_mat W num_out num_features" "int (length x) = num_features"
    "int (length D) = num_out"
  shows "\<exists>D'. step1 x W D num_out num_features = Inr D' \<and> int (length D') = num_out \<and>
     (\<forall>j<length W. D' ! j = (\<Sum>k<length x. (W ! j ! k - x ! k)\<^sup>2)) \<and>
     (1 \<le> num_out \<longrightarrow>
        (\<exists>W'. update_weights x W D num_out num_features alpha R = Inr (W', D')))"
proof -
  let ?D = "map (sq_dist num_features x) W"
  have s1: "step1 x W D num_out num_features = Inr ?D"
    using assms by (intro step1_eq) (auto simp: wf_mat_def)
  have l: "int (length ?D) = num_out" using assms(1) by (simp add: wf_mat_def)
  have n: "nat num_features = length x" using assms(2) by auto
  have v: "\<forall>j<length W. ?D ! j = (\<Sum>k<length x. (W ! j ! k - x ! k)\<^sup>2)"
    by (simp add: sq_dist_def n)
  have "1 \<le> num_out \<longrightarrow> (\<exists>W'. update_weights x W D num_out num_features alpha R = Inr (W', ?D))"
    using update_weights_eq[OF assms, of alpha R] by blast
  then show ?thesis using s1 l v by blast
qed

theorem step1_squared_distances_witness:
  "wf_mat [[0, 0], [3, 4]] 2 2 \<and> int (length [1, 0 :: real]) = 2 \<and> int (length [7, 7 :: real]) = 2 \<and>
   step1 [1, 0] [[0, 0], [3, 4]] [7, 7] 2 2 = Inr [1, 20]"
proof -
  have h1: "wf_mat [[0, 0], [3, 4]] 2 2" by (simp add: wf_mat_def)
  have h2: "int (length [1, 0 :: real]) = 2" by simp
  have h3: "int (length [7, 7 :: real]) = 2" by simp
  from step1_squared_distances[OF h1 h2 h3] obtain D' where
    D': "step1 [1, 0] [[0, 0], [3, 4]] [7, 7] 2 2 = Inr D'" "int (length D') = 2"
      "\<forall>j<length [[0, 0], [3, 4 :: real]]. D' ! j = (\<Sum>k<length [1, 0 :: real]. ([[0, 0], [3, 4]] ! j ! k - [1, 0] ! k)\<^sup>2)"
    by blast
  have "D' ! 0 = 1" using D'(3) by (simp add: lessThan_Suc numeral_2_eq_2)
  moreover have "D' ! 1 = 20" using D'(3) by (simp add: lessThan_Suc numeral_2_eq_2)
  moreover have "length D' = 2" using D'(2) by simp
  ultimately have "D' = [1, 20]"
    by (intro nth_equalityI) (auto simp: less_Suc_eq numeral_2_eq_2)
  then show ?thesis using h1 h2 h3 D'(1) by simp
qed

text \<open>
  C2 says that \<open>get_min_1d\<close> on a vector of \<open>N \<ge> 1\<close> entries leaves in \<open>val\<close> the least
  entry and in \<open>idx\<close> the lowest index that holds it. The function stores into \<open>idx\<close> only
  under the test \<^verbatim>\<open>X[i] < val[0]\<close>, and \<open>val[0]\<close> starts as \<open>+\<infinity>\<close>: on a vector with no
  entry below \<open>+\<infinity>\<close> the test never holds. For \<open>X = {+\<infinity>, +\<infinity>}\<close> and \<open>N = 2\<close> the function
  returns with \<open>val = +\<infinity>\<close>, which is the least entry, and with \<open>idx\<close> as the caller left
  it, whatever that was (\<open>idx0\<close>), and not with the index \<open>0\<close> of the first least entry. A
  NaN is below nothing, so the same happens for \<open>X = {NaN}\<close>.
\<close>

theorem get_min_1d_unassigned:
  "get_min_1d [PInf, PInf] 2 idx0 = Inr (PInf, idx0) \<and>
   get_min_1d [NaN] 1 idx0 = Inr (PInf, idx0)"
  by (simp add: get_min_1d_def get_min_loop.simps rd_def)

text \<open>
  On a vector of numbers, none of them \<open>+\<infinity>\<close>, \<open>-\<infinity>\<close> or a NaN, the scan does find the least
  entry and the first index that holds it.
\<close>

lemma get_min_1d_numbers:
  assumes "N = int (length X)" "1 \<le> N"
  shows "\<exists>m<length X. get_min_1d (map Finite X) N idx0 = Inr (Finite (X ! m), Some (int m)) \<and>
     X ! m = Min (set X) \<and> (\<forall>j<length X. X ! j = Min (set X) \<longrightarrow> m \<le> j)"
proof -
  from get_min_1d_eq[OF assms, of idx0] obtain m where m: "m < length X"
    "get_min_1d (map Finite X) N idx0 = Inr (Finite (X ! m), Some (int m))"
    "\<forall>j<length X. X ! m \<le> X ! j" "\<forall>j<m. X ! m < X ! j"
    by blast
  have "X ! m \<in> set X" using m(1) by simp
  moreover have "\<forall>v\<in>set X. X ! m \<le> v" using m(3) by (auto simp: in_set_conv_nth)
  ultimately have mn: "X ! m = Min (set X)"
    by (intro Min_eqI[symmetric]) auto
  have "\<forall>j<length X. X ! j = Min (set X) \<longrightarrow> m \<le> j"
  proof (intro allI impI)
    fix j assume "j < length X" "X ! j = Min (set X)"
    then have "\<not> X ! m < X ! j" using mn by simp
    then show "m \<le> j" using m(4) by (meson not_le)
  qed
  then show ?thesis using m(1,2) mn by blast
qed

lemma c_int_le: "- 2147483648 \<le> v \<Longrightarrow> c_int v \<le> v"
proof -
  assume "- 2147483648 \<le> v"
  then have "0 \<le> v + 2147483648" by simp
  then have "(v + 2147483648) mod 4294967296 \<le> v + 2147483648"
    using zmod_le_nonneg_dividend by blast
  then show ?thesis by (simp add: c_int_def)
qed

lemma in_window_iff:
  assumes "0 \<le> b" "0 \<le> R" "b + R \<le> 2147483647"
  shows "in_window num_out b R j = (max 0 (b - R) \<le> j \<and> j < min num_out (b + R + 1))"
proof -
  have "from_node b R = max 0 (b - R)" using assms by (intro from_node_max) auto
  moreover have "to_node num_out b R = min num_out (b + R + 1)"
    using assms by (intro to_node_min) auto
  ultimately show ?thesis by (simp only: in_window_def)
qed

lemma in_window_within:
  assumes "0 \<le> b" "b \<le> 2147483647" "0 \<le> R" "R \<le> 2147483647" "in_window num_out b R j"
  shows "max 0 (b - R) \<le> j \<and> j < min num_out (b + R + 1)"
proof -
  have f: "from_node b R = max 0 (b - R)" using assms(1-4) by (intro from_node_max) auto
  have "c_int (b + R) \<le> b + R" using assms(1,3) by (intro c_int_le) simp
  moreover have "to_node num_out b R \<le> c_int (b + R) + 1" by (simp add: to_node_def Let_def)
  ultimately have "to_node num_out b R \<le> min num_out (b + R + 1)"
    using to_node_le[of num_out b R] by simp
  then show ?thesis using assms(5) unfolding in_window_def f by simp
qed

text \<open>
  C3, as it stands, fails where \<^verbatim>\<open>d_min_idx + R\<close> leaves the range of \<^verbatim>\<open>int\<close>. With two
  nodes, \<open>bmu = 1\<close> and \<open>R = 2147483647\<close> the sum is \<open>2\<^sup>3\<^sup>1\<close> and wraps to \<open>- 2\<^sup>3\<^sup>1\<close>, \<open>to_node\<close>
  is \<open>- 2147483647\<close>, the loop over \<open>j\<close> has nothing to do, and the weight of node 0,
  which lies in \<open>[max 0 (bmu - R), min num_out (bmu + R + 1)) = [0, 2)\<close>, stays \<open>3\<close>
  instead of moving to \<open>3 + 1/2 * (1 - 3)\<close>; the whole call of \<open>update_weights\<close> with this
  radius finds \<open>d_min_idx = 1\<close> and returns the weights as they were. (In a run of
  \<open>kohonen_som_tracer\<close> the radius is at most \<open>num_out div 4\<close> and the sum fits for every
  \<open>num_out\<close> up to 1717986917, see \<open>window_in_int_range\<close>.)
\<close>

theorem step3_window_overflow:
  "(0 :: int) \<le> 1 \<and> (1 :: int) < 2 \<and> (0 :: int) \<le> 2147483647 \<and> (0 :: real) < 1 / 2 \<and> (1 / 2 :: real) \<le> 1 \<and>
   max 0 (1 - 2147483647) \<le> int 0 \<and> int 0 < min 2 (1 + 2147483647 + 1) \<and> int 0 < 1 \<and>
   step3 [1] [[3], [1]] 2 1 (1 / 2) 2147483647 1 = Inr [[3], [1]] \<and>
   update_weights [1] [[3], [1]] [0, 0] 2 1 (1 / 2) 2147483647 = Inr ([[3], [1]], [4, 0]) \<and>
   [[3], [1 :: real]] ! 0 ! 0 \<noteq> 3 + 1 / 2 * (1 - 3)"
  by (simp add: update_weights_def update_weights_with_def step1_def step1_j.simps step1_k.simps
      step1_acc_def get_min_1d_def get_min_loop.simps step3_def to_node_def from_node_def
      c_int_def step3_j.simps Let_def)

text \<open>
  C3, amended. Step 3 of \<open>update_weights\<close>, for the closest node \<open>bmu \<ge> 0\<close> and a radius
  \<open>R \<ge> 0\<close> with \<open>bmu + R + 1 \<le> 2147483647\<close> (no sum of line 118 leaves the range of
  \<^verbatim>\<open>int\<close>): every weight \<open>W[j][k]\<close> of a node \<open>j\<close> with
  \<open>max 0 (bmu - R) \<le> j < min num_out (bmu + R + 1)\<close> becomes
  \<open>W[j][k] + alpha * (x[k] - W[j][k])\<close>, which is \<open>(1 - alpha) * W[j][k] + alpha * x[k]\<close>.
  This holds for every \<open>alpha\<close>, so for \<open>alpha\<close> in \<open>(0, 1]\<close>.
\<close>

theorem step3_pulls_window:
  assumes "wf_mat W num_out num_features" "int (length x) = num_features"
    "0 \<le> bmu" "0 \<le> R" "bmu + R + 1 \<le> 2147483647"
  shows "\<exists>W'. step3 x W num_out num_features alpha R bmu = Inr W' \<and>
     wf_mat W' num_out num_features \<and>
     (\<forall>j k. max 0 (bmu - R) \<le> int j \<and> int j < min num_out (bmu + R + 1) \<and> int k < num_features \<longrightarrow>
        W' ! j ! k = W ! j ! k + alpha * (x ! k - W ! j ! k) \<and>
        W' ! j ! k = (1 - alpha) * W ! j ! k + alpha * x ! k)"
proof -
  let ?W' = "map (\<lambda>i. if in_window num_out bmu R (int i) then pull alpha x (W ! i) else W ! i)
          [0..<length W]"
  have e: "step3 x W num_out num_features alpha R bmu = Inr ?W'"
    using assms by (intro step3_eq) auto
  have wf: "wf_mat ?W' num_out num_features" by (rule wf_mat_step3[OF assms(1)])
  have "\<forall>j k. max 0 (bmu - R) \<le> int j \<and> int j < min num_out (bmu + R + 1) \<and> int k < num_features \<longrightarrow>
        ?W' ! j ! k = W ! j ! k + alpha * (x ! k - W ! j ! k) \<and>
        ?W' ! j ! k = (1 - alpha) * W ! j ! k + alpha * x ! k"
  proof (intro allI impI)
    fix j k
    assume a: "max 0 (bmu - R) \<le> int j \<and> int j < min num_out (bmu + R + 1) \<and> int k < num_features"
    then have j: "j < length W" using assms(1) by (auto simp: wf_mat_def)
    then have "int (length (W ! j)) = num_features" using assms(1) by (auto simp: wf_mat_def)
    then have k: "k < length (W ! j)" using a by simp
    have "bmu + R \<le> 2147483647" using assms(5) by simp
    then have w: "in_window num_out bmu R (int j)"
      using a in_window_iff[OF assms(3,4)] by simp
    have "?W' ! j ! k = W ! j ! k + alpha * (x ! k - W ! j ! k)"
      using j k w by (simp add: pull_def)
    then show "?W' ! j ! k = W ! j ! k + alpha * (x ! k - W ! j ! k) \<and>
        ?W' ! j ! k = (1 - alpha) * W ! j ! k + alpha * x ! k"
      by (simp add: algebra_simps)
  qed
  then show ?thesis using e wf by blast
qed

theorem step3_pulls_window_witness:
  "wf_mat [[0, 0], [2, 4], [4, 8]] 3 2 \<and> int (length [1, 1 :: real]) = 2 \<and>
   (0 :: int) \<le> 1 \<and> (0 :: int) \<le> 0 \<and> (1 :: int) + 0 + 1 \<le> 2147483647 \<and>
   (\<exists>W'. step3 [1, 1] [[0, 0], [2, 4], [4, 8]] 3 2 (1 / 2) 0 1 = Inr W' \<and>
      W' ! 1 ! 0 = 3 / 2 \<and> W' ! 1 ! 1 = 5 / 2)"
proof -
  have h1: "wf_mat [[0, 0], [2, 4], [4, 8]] 3 2" by (simp add: wf_mat_def)
  have h2: "int (length [1, 1 :: real]) = 2" by simp
  have h3: "(0 :: int) \<le> 1" by simp
  have h4: "(0 :: int) \<le> 0" by simp
  have h5: "(1 :: int) + 0 + 1 \<le> 2147483647" by simp
  from step3_pulls_window[OF h1 h2 h3 h4 h5, of "1 / 2"] obtain W' where
    W': "step3 [1, 1] [[0, 0], [2, 4], [4, 8]] 3 2 (1 / 2) 0 1 = Inr W'"
    "\<forall>j k. max 0 (1 - 0) \<le> int j \<and> int j < min 3 (1 + 0 + 1) \<and> int k < 2 \<longrightarrow>
        W' ! j ! k = [[0, 0], [2, 4], [4, 8]] ! j ! k + 1 / 2 * ([1, 1] ! k - [[0, 0], [2, 4], [4, 8]] ! j ! k) \<and>
        W' ! j ! k = (1 - 1 / 2) * [[0, 0], [2, 4], [4, 8]] ! j ! k + 1 / 2 * [1, 1] ! k"
    by blast
  have "W' ! 1 ! 0 = 3 / 2" using W'(2)[rule_format, of 1 0] by simp
  moreover have "W' ! 1 ! 1 = 5 / 2" using W'(2)[rule_format, of 1 1] by simp
  ultimately show ?thesis using h1 h2 W'(1) by simp
qed

text \<open>
  C4. Step 3 of \<open>update_weights\<close>, for the closest node \<open>b \<ge> 0\<close> and the radius \<open>R \<ge> 0\<close>
  (two values of type \<^verbatim>\<open>int\<close>): a row of \<open>W\<close> whose index is outside of
  \<open>[max 0 (b - R), min num_out (b + R + 1))\<close> is the same after the step as before, and
  a row that differs has its index inside. Where \<^verbatim>\<open>d_min_idx + R\<close> wraps around no
  row changes at all.
\<close>

theorem step3_frame:
  assumes "wf_mat W num_out num_features" "int (length x) = num_features"
    "0 \<le> b" "b \<le> 2147483647" "0 \<le> R" "R \<le> 2147483647"
  shows "\<exists>W'. step3 x W num_out num_features alpha R b = Inr W' \<and> length W' = length W \<and>
     (\<forall>j<length W. \<not> (max 0 (b - R) \<le> int j \<and> int j < min num_out (b + R + 1)) \<longrightarrow>
        W' ! j = W ! j) \<and>
     (\<forall>j<length W. W' ! j \<noteq> W ! j \<longrightarrow>
        max 0 (b - R) \<le> int j \<and> int j < min num_out (b + R + 1))"
proof -
  define W' where "W' = map (\<lambda>i. if in_window num_out b R (int i) then pull alpha x (W ! i) else W ! i)
          [0..<length W]"
  have e: "step3 x W num_out num_features alpha R b = Inr W'"
    unfolding W'_def using assms by (intro step3_eq) auto
  have l: "length W' = length W" by (simp add: W'_def)
  have fr: "W' ! j = W ! j" if "j < length W" "\<not> in_window num_out b R (int j)" for j
    using that by (simp add: W'_def)
  have within: "max 0 (b - R) \<le> int j \<and> int j < min num_out (b + R + 1)"
    if "in_window num_out b R (int j)" for j
    using in_window_within[OF assms(3,4,5,6) that] .
  have "\<forall>j<length W. \<not> (max 0 (b - R) \<le> int j \<and> int j < min num_out (b + R + 1)) \<longrightarrow>
        W' ! j = W ! j"
    using fr within by blast
  moreover have "\<forall>j<length W. W' ! j \<noteq> W ! j \<longrightarrow>
        max 0 (b - R) \<le> int j \<and> int j < min num_out (b + R + 1)"
    using fr within by blast
  ultimately show ?thesis using e l by blast
qed

theorem step3_frame_witness:
  "wf_mat [[0, 0], [2, 4], [4, 8]] 3 2 \<and> int (length [1, 1 :: real]) = 2 \<and>
   (0 :: int) \<le> 1 \<and> (1 :: int) \<le> 2147483647 \<and> (0 :: int) \<le> 0 \<and> (0 :: int) \<le> 2147483647 \<and>
   (\<exists>W'. step3 [1, 1] [[0, 0], [2, 4], [4, 8]] 3 2 (1 / 2) 0 1 = Inr W' \<and>
      W' ! 0 = [0, 0] \<and> W' ! 2 = [4, 8])"
proof -
  have h1: "wf_mat [[0, 0], [2, 4], [4, 8]] 3 2" by (simp add: wf_mat_def)
  have h2: "int (length [1, 1 :: real]) = 2" by simp
  have h3: "(0 :: int) \<le> 1" by simp
  have h4: "(1 :: int) \<le> 2147483647" by simp
  have h5: "(0 :: int) \<le> 0" by simp
  have h6: "(0 :: int) \<le> 2147483647" by simp
  from step3_frame[OF h1 h2 h3 h4 h5 h6, of "1 / 2"] obtain W' where
    W': "step3 [1, 1] [[0, 0], [2, 4], [4, 8]] 3 2 (1 / 2) 0 1 = Inr W'"
    "\<forall>j<length [[0, 0], [2, 4], [4, 8 :: real]].
       \<not> (max 0 (1 - 0) \<le> int j \<and> int j < min 3 (1 + 0 + 1)) \<longrightarrow>
        W' ! j = [[0, 0], [2, 4], [4, 8]] ! j"
    by blast
  have "W' ! 0 = [0, 0]" using W'(2)[rule_format, of 0] by simp
  moreover have "W' ! 2 = [4, 8]" using W'(2)[rule_format, of 2] by simp
  ultimately show ?thesis using h1 h2 W'(1) by simp
qed







text \<open>
  C10. With \<open>alpha_min \<ge> 1\<close> the test \<open>alpha > alpha_min\<close> fails at \<open>alpha = 1\<close>: the run
  makes no outer pass (the locals at the exit are the initial ones, \<open>iter = 0\<close>) and
  every weight is what it was.
\<close>

theorem tracer_zero_passes:
  assumes "1 \<le> alpha_min"
  shows "kohonen_som_tracer X W num_samples num_features num_out alpha_min = Inr W \<and>
     tracer_run X W num_samples num_features num_out alpha_min = Inr (tracer_init W num_out) \<and>
     tr_iter (tracer_init W num_out) = 0"
proof -
  have "\<not> tr_alpha (tracer_init W num_out) > alpha_min"
    using assms by (simp add: tracer_init_def)
  then have "tracer_run X W num_samples num_features num_out alpha_min = Inr (tracer_init W num_out)"
    unfolding tracer_run_def by (subst tracer_loop.simps) simp
  then show ?thesis by (simp add: kohonen_som_tracer_def tracer_init_def)
qed

theorem tracer_zero_passes_witness:
  "(1::real) \<le> 1 \<and> kohonen_som_tracer [[2, 3]] [[0, 1], [5, 7]] 1 2 2 1 = Inr [[0, 1], [5, 7]]"
  using tracer_zero_passes[of 1 "[[2, 3]]" "[[0, 1], [5, 7]]" 1 2 2] by simp

subsection \<open>The schedule of \<open>alpha\<close> and \<open>R\<close>\<close>

lemma tracer_init_wf:
  assumes "wf_mat W num_out num_features"
  shows "wf_tracer (tracer_init W num_out) num_out num_features"
  using assms by (auto simp: wf_tracer_def tracer_init_def wf_mat_def)

lemma tracer_run_passes:
  assumes "wf_mat X num_samples num_features" "wf_mat W num_out num_features" "1 \<le> num_out"
    "1 - real n / 100 \<le> alpha_min" "\<forall>k<n. alpha_min < 1 - real k / 100"
    "int n \<le> 2147483647"
  shows "\<exists>s. tracer_run X W num_samples num_features num_out alpha_min = Inr s \<and>
     after_passes n X num_samples num_features num_out (tracer_init W num_out) = Inr s \<and>
     tr_iter s = int n"
proof -
  obtain s where s: "after_passes n X num_samples num_features num_out (tracer_init W num_out) = Inr s"
    using after_passes_wf[OF assms(1) tracer_init_wf[OF assms(2)] assms(3), of n] by blast
  have a: "tr_alpha (tracer_init W num_out) = 1" by (simp add: tracer_init_def)
  have "tracer_loop X num_samples num_features num_out alpha_min (tracer_init W num_out) = Inr s"
    using assms(4,5) by (intro tracer_loop_exit[OF s]) (simp_all add: a)
  moreover have "tr_iter s = int n"
    using after_passes_iter[OF s] assms(6) by (simp add: tracer_init_def)
  ultimately show ?thesis using s by (simp add: tracer_run_def)
qed

lemma passes_alpha:
  assumes "wf_mat X num_samples num_features" "wf_mat W num_out num_features" "1 \<le> num_out"
  shows "\<exists>s. after_passes k X num_samples num_features num_out (tracer_init W num_out) = Inr s \<and>
     tr_alpha s = 1 - real k / 100"
proof -
  obtain s where s: "after_passes k X num_samples num_features num_out (tracer_init W num_out) = Inr s"
    using after_passes_wf[OF assms(1) tracer_init_wf[OF assms(2)] assms(3), of k] by blast
  show ?thesis using s after_passes_alpha[OF s] by (simp add: tracer_init_def)
qed

lemma below_90: "k < 90 \<Longrightarrow> (1 / 10 :: real) < 1 - real k / 100"
proof -
  assume "k < 90"
  then have "real k \<le> 89" by simp
  then show ?thesis by (simp add: field_simps)
qed

lemma below_99: "k < 99 \<Longrightarrow> (1 / 100 :: real) < 1 - real k / 100"
proof -
  assume "k < 99"
  then have "real k \<le> 98" by simp
  then show ?thesis by (simp add: field_simps)
qed

lemma b64_literals:
  "\<bar>b64_val b64_0_01 - 1 / 100\<bar> < 1 / 2 ^ 60 \<and> 2 ^ 52 \<le> fst b64_0_01 \<and> fst b64_0_01 < 2 ^ 53 \<and>
   \<bar>b64_val b64_0_1 - 1 / 10\<bar> < 1 / 2 ^ 57 \<and> 2 ^ 52 \<le> fst b64_0_1 \<and> fst b64_0_1 < 2 ^ 53 \<and>
   b64_val b64_1 = 1"
  by (simp add: b64_val_def b64_0_01_def b64_0_1_def b64_1_def)

lemma b64_schedule_0_1: "b64_schedule b64_0_1 b64_1 0 = Some (90, (7205759403792739, - 56))"
  by code_simp

lemma b64_schedule_0_01: "b64_schedule b64_0_01 b64_1 0 = Some (99, (5764607523033801, - 59))"
  by code_simp

lemma tracer_pass_R:
  assumes "tracer_pass X num_samples num_features num_out s = Inr s'"
  shows "tr_R s' \<le> tr_R s" "0 \<le> tr_R s \<Longrightarrow> 0 \<le> tr_R s'" "1 \<le> tr_R s \<Longrightarrow> 1 \<le> tr_R s'"
  using tracer_pass_locals(3)[OF assms] by (auto split: if_splits)

lemma after_passes_R:
  assumes "after_passes n X num_samples num_features num_out s = Inr s'"
  shows "tr_R s' \<le> tr_R s \<and> (0 \<le> tr_R s \<longrightarrow> 0 \<le> tr_R s') \<and> (1 \<le> tr_R s \<longrightarrow> 1 \<le> tr_R s')"
  using assms
proof (induction n arbitrary: s)
  case 0
  then show ?case by simp
next
  case (Suc n)
  obtain s1 where s1: "tracer_pass X num_samples num_features num_out s = Inr s1"
    "after_passes n X num_samples num_features num_out s1 = Inr s'"
    using Suc.prems by (auto split: sum.splits)
  show ?case using Suc.IH[OF s1(2)] tracer_pass_R[OF s1(1)] by auto
qed

lemma tracer_loop_wf:
  assumes "wf_mat X num_samples num_features" "wf_tracer s num_out num_features" "1 \<le> num_out"
  shows "\<exists>s'. tracer_loop X num_samples num_features num_out alpha_min s = Inr s' \<and>
     wf_tracer s' num_out num_features"
  using assms
proof (induction X num_samples num_features num_out alpha_min s rule: tracer_loop.induct)
  case (1 X num_samples num_features num_out alpha_min s)
  show ?case
  proof (cases "alpha_min < tr_alpha s")
    case False
    then show ?thesis using 1(3) by (subst tracer_loop.simps) simp
  next
    case True
    obtain s1 where s1: "tracer_pass X num_samples num_features num_out s = Inr s1"
      "wf_tracer s1 num_out num_features"
      using tracer_pass_wf[OF 1(2,3,4)] by blast
    have "tracer_loop X num_samples num_features num_out alpha_min s =
      tracer_loop X num_samples num_features num_out alpha_min s1"
      by (subst tracer_loop.simps) (simp add: True s1(1))
    then show ?thesis using 1(1)[OF True s1(1) 1(2) s1(2) 1(4)] by simp
  qed
qed

lemma tracer_defined:
  assumes "wf_mat X num_samples num_features" "wf_mat W num_out num_features" "1 \<le> num_out"
  shows "\<exists>Wf. kohonen_som_tracer X W num_samples num_features num_out alpha_min = Inr Wf \<and>
     wf_mat Wf num_out num_features"
proof -
  obtain s where "tracer_loop X num_samples num_features num_out alpha_min (tracer_init W num_out) = Inr s"
    "wf_tracer s num_out num_features"
    using tracer_loop_wf[OF assms(1) tracer_init_wf[OF assms(2)] assms(3)] by blast
  then show ?thesis by (simp add: kohonen_som_tracer_def tracer_run_def wf_tracer_def)
qed

text \<open>
  C5. The loop starts with \<open>alpha = 1\<close>, takes \<open>0.01\<close> from it after each outer pass,
  and makes a pass only while \<open>alpha > alpha_min\<close>. With \<open>alpha_min = 0.1\<close> the run ends
  after exactly 90 passes, \<open>alpha\<close> being \<open>1.00, 0.99, ..., 0.11\<close> in them, and with
  \<open>alpha_min = 0.01\<close> after exactly 99. The last two lines say that the counts are the
  same, 90 and 99, when every subtraction is rounded as in binary64.
\<close>

theorem schedule_pass_count:
  assumes "wf_mat X num_samples num_features" "wf_mat W num_out num_features" "1 \<le> num_out"
  shows "(\<exists>s. tracer_run X W num_samples num_features num_out (1 / 10) = Inr s \<and>
            after_passes 90 X num_samples num_features num_out (tracer_init W num_out) = Inr s \<and>
            tr_iter s = 90) \<and>
     (\<exists>s. tracer_run X W num_samples num_features num_out (1 / 100) = Inr s \<and>
            after_passes 99 X num_samples num_features num_out (tracer_init W num_out) = Inr s \<and>
            tr_iter s = 99) \<and>
     (\<forall>k<90. \<exists>s. after_passes k X num_samples num_features num_out (tracer_init W num_out) = Inr s \<and>
            tr_alpha s = 1 - real k / 100 \<and> 1 / 10 < tr_alpha s) \<and>
     (\<forall>k<99. \<exists>s. after_passes k X num_samples num_features num_out (tracer_init W num_out) = Inr s \<and>
            tr_alpha s = 1 - real k / 100 \<and> 1 / 100 < tr_alpha s) \<and>
     tr_alpha (tracer_init W num_out) = 1 \<and>
     (\<forall>s s'. tracer_pass X num_samples num_features num_out s = Inr s' \<longrightarrow>
            tr_alpha s' = tr_alpha s - 1 / 100) \<and>
     (\<forall>s alpha_min. \<not> alpha_min < tr_alpha s \<longrightarrow>
            tracer_loop X num_samples num_features num_out alpha_min s = Inr s) \<and>
     map_option fst (b64_schedule b64_0_1 b64_1 0) = Some 90 \<and>
     map_option fst (b64_schedule b64_0_01 b64_1 0) = Some 99"
proof -
  have p90: "\<exists>s. tracer_run X W num_samples num_features num_out (1 / 10) = Inr s \<and>
            after_passes 90 X num_samples num_features num_out (tracer_init W num_out) = Inr s \<and>
            tr_iter s = 90"
    using tracer_run_passes[OF assms, of 90 "1 / 10"] below_90 by simp
  have p99: "\<exists>s. tracer_run X W num_samples num_features num_out (1 / 100) = Inr s \<and>
            after_passes 99 X num_samples num_features num_out (tracer_init W num_out) = Inr s \<and>
            tr_iter s = 99"
    using tracer_run_passes[OF assms, of 99 "1 / 100"] below_99 by simp
  have a90: "\<forall>k<90. \<exists>s. after_passes k X num_samples num_features num_out (tracer_init W num_out) = Inr s \<and>
            tr_alpha s = 1 - real k / 100 \<and> 1 / 10 < tr_alpha s"
  proof (intro allI impI)
    fix k :: nat assume k: "k < 90"
    obtain s where "after_passes k X num_samples num_features num_out (tracer_init W num_out) = Inr s"
      "tr_alpha s = 1 - real k / 100"
      using passes_alpha[OF assms, of k] by blast
    then show "\<exists>s. after_passes k X num_samples num_features num_out (tracer_init W num_out) = Inr s \<and>
            tr_alpha s = 1 - real k / 100 \<and> 1 / 10 < tr_alpha s"
      using below_90[OF k] by auto
  qed
  have a99: "\<forall>k<99. \<exists>s. after_passes k X num_samples num_features num_out (tracer_init W num_out) = Inr s \<and>
            tr_alpha s = 1 - real k / 100 \<and> 1 / 100 < tr_alpha s"
  proof (intro allI impI)
    fix k :: nat assume k: "k < 99"
    obtain s where "after_passes k X num_samples num_features num_out (tracer_init W num_out) = Inr s"
      "tr_alpha s = 1 - real k / 100"
      using passes_alpha[OF assms, of k] by blast
    then show "\<exists>s. after_passes k X num_samples num_features num_out (tracer_init W num_out) = Inr s \<and>
            tr_alpha s = 1 - real k / 100 \<and> 1 / 100 < tr_alpha s"
      using below_99[OF k] by auto
  qed
  have i: "tr_alpha (tracer_init W num_out) = 1" by (simp add: tracer_init_def)
  have st: "\<forall>s s'. tracer_pass X num_samples num_features num_out s = Inr s' \<longrightarrow>
            tr_alpha s' = tr_alpha s - 1 / 100"
    using tracer_pass_locals(1) by simp
  have ex: "\<forall>s alpha_min. \<not> alpha_min < tr_alpha s \<longrightarrow>
            tracer_loop X num_samples num_features num_out alpha_min s = Inr s"
    by (simp add: tracer_loop.simps)
  have b1: "map_option fst (b64_schedule b64_0_1 b64_1 0) = Some 90"
    by (simp add: b64_schedule_0_1)
  have b2: "map_option fst (b64_schedule b64_0_01 b64_1 0) = Some 99"
    by (simp add: b64_schedule_0_01)
  show ?thesis
    by (intro conjI p90 p99 a90 a99 i st ex b1 b2)
qed

theorem schedule_pass_count_witness:
  "wf_mat [[1, 0], [0, 1]] 2 2 \<and> wf_mat [[0, 0], [1, 1], [2, 2]] 3 2 \<and> (1::int) \<le> 3 \<and>
   (\<exists>s. tracer_run [[1, 0], [0, 1]] [[0, 0], [1, 1], [2, 2]] 2 2 3 (1 / 10) = Inr s \<and> tr_iter s = 90) \<and>
   (\<exists>s. tracer_run [[1, 0], [0, 1]] [[0, 0], [1, 1], [2, 2]] 2 2 3 (1 / 100) = Inr s \<and> tr_iter s = 99)"
proof -
  have h1: "wf_mat [[1, 0], [0, 1]] 2 2" by (simp add: wf_mat_def)
  have h2: "wf_mat [[0, 0], [1, 1], [2, 2]] 3 2" by (simp add: wf_mat_def)
  have h3: "(1::int) \<le> 3" by simp
  from schedule_pass_count[OF h1 h2 h3]
  have "(\<exists>s. tracer_run [[1, 0], [0, 1]] [[0, 0], [1, 1], [2, 2]] 2 2 3 (1 / 10) = Inr s \<and> tr_iter s = 90)"
    "(\<exists>s. tracer_run [[1, 0], [0, 1]] [[0, 0], [1, 1], [2, 2]] 2 2 3 (1 / 100) = Inr s \<and> tr_iter s = 99)"
    by blast+
  then show ?thesis using h1 h2 h3 by blast
qed

text \<open>
  C6. At any point of a run, after \<open>n\<close> outer passes: \<open>R\<close> started as
  \<open>num_out >> 2\<close>, that is \<open>num_out div 4\<close>; \<open>iter\<close> is \<open>n\<close>; the next pass takes exactly 1
  from \<open>R\<close> when \<open>iter mod 10 = 0\<close> and \<open>R > 1\<close>, and leaves it alone otherwise; \<open>R\<close> is
  not above what it was at any earlier point; it is not negative (for a number of nodes
  \<open>num_out \<ge> 0\<close>); and with \<open>num_out \<ge> 4\<close> it is at least 1.
  By \<open>tracer_loop_passes\<close> the locals of a run, at each test of the loop and at its
  exit, are the locals after some number of passes.
\<close>

theorem radius_schedule:
  assumes "after_passes n X num_samples num_features num_out (tracer_init W num_out) = Inr s"
  shows "tr_R (tracer_init W num_out) = num_out div 4 \<and>
     (int n \<le> 2147483647 \<longrightarrow> tr_iter s = int n) \<and>
     (\<forall>s'. tracer_pass X num_samples num_features num_out s = Inr s' \<longrightarrow>
        tr_R s' = (if tr_iter s mod 10 = 0 \<and> 1 < tr_R s then tr_R s - 1 else tr_R s)) \<and>
     (\<forall>m sm. m \<le> n \<and>
        after_passes m X num_samples num_features num_out (tracer_init W num_out) = Inr sm \<longrightarrow>
        tr_R s \<le> tr_R sm) \<and>
     (0 \<le> num_out \<longrightarrow> 0 \<le> tr_R s) \<and> (4 \<le> num_out \<longrightarrow> 1 \<le> tr_R s)"
proof -
  have r0: "tr_R (tracer_init W num_out) = num_out div 4"
    by (simp add: tracer_init_def drop_bit_eq_div)
  have it: "int n \<le> 2147483647 \<longrightarrow> tr_iter s = int n"
    using after_passes_iter[OF assms] by (simp add: tracer_init_def)
  have step: "\<forall>s'. tracer_pass X num_samples num_features num_out s = Inr s' \<longrightarrow>
        tr_R s' = (if tr_iter s mod 10 = 0 \<and> 1 < tr_R s then tr_R s - 1 else tr_R s)"
    using tracer_pass_locals(3) by auto
  have mono: "\<forall>m sm. m \<le> n \<and>
        after_passes m X num_samples num_features num_out (tracer_init W num_out) = Inr sm \<longrightarrow>
        tr_R s \<le> tr_R sm"
  proof (intro allI impI)
    fix m sm
    assume a: "m \<le> n \<and>
        after_passes m X num_samples num_features num_out (tracer_init W num_out) = Inr sm"
    then have "after_passes (m + (n - m)) X num_samples num_features num_out (tracer_init W num_out)
      = after_passes (n - m) X num_samples num_features num_out sm"
      by (intro after_passes_add) simp
    then have "after_passes (n - m) X num_samples num_features num_out sm = Inr s"
      using a assms by simp
    then show "tr_R s \<le> tr_R sm" using after_passes_R by blast
  qed
  have nn: "0 \<le> num_out \<longrightarrow> 0 \<le> tr_R s"
    using after_passes_R[OF assms] unfolding r0 by auto
  have ge1: "4 \<le> num_out \<longrightarrow> 1 \<le> tr_R s"
    using after_passes_R[OF assms] unfolding r0 by auto
  show ?thesis by (intro conjI r0 it step mono nn ge1)
qed

theorem radius_schedule_witness:
  "after_passes 10 [] 0 1 12 (tracer_init (replicate 12 [0]) 12) =
     Inr \<lparr>tr_W = replicate 12 [0], tr_D = replicate 12 0, tr_R = 2, tr_iter = 10, tr_alpha = 9 / 10\<rparr> \<and>
   tr_R (tracer_init (replicate 12 [0]) 12) = 3 \<and>
   tracer_pass [] 0 1 12
     \<lparr>tr_W = replicate 12 [0], tr_D = replicate 12 0, tr_R = 2, tr_iter = 10, tr_alpha = 9 / 10\<rparr> =
     Inr \<lparr>tr_W = replicate 12 [0], tr_D = replicate 12 0, tr_R = 1, tr_iter = 11, tr_alpha = 89 / 100\<rparr> \<and>
   tr_R \<lparr>tr_W = replicate 12 [0], tr_D = replicate 12 0, tr_R = 1, tr_iter = 11, tr_alpha = 89 / 100\<rparr> =
     tr_R \<lparr>tr_W = replicate 12 [0], tr_D = replicate 12 0, tr_R = 2, tr_iter = 10, tr_alpha = 9 / 10\<rparr> - 1"
proof -
  let ?s = "\<lparr>tr_W = replicate 12 [0], tr_D = replicate 12 0, tr_R = 2, tr_iter = 10, tr_alpha = 9 / 10 :: real\<rparr>"
  let ?s' = "\<lparr>tr_W = replicate 12 [0], tr_D = replicate 12 0, tr_R = 1, tr_iter = 11, tr_alpha = 89 / 100 :: real\<rparr>"
  have h: "after_passes 10 [] 0 1 12 (tracer_init (replicate 12 [0]) 12) = Inr ?s"
    by (simp add: eval_nat_numeral tracer_pass_def tracer_init_def sample_loop.simps
        drop_bit_eq_div c_int_def)
  have p: "tracer_pass [] 0 1 12 ?s = Inr ?s'"
    by (simp add: tracer_pass_def sample_loop.simps c_int_def)
  from radius_schedule[OF h]
  have r0: "tr_R (tracer_init (replicate 12 [0]) 12) = 12 div 4"
    and st: "\<forall>s'. tracer_pass [] 0 1 12 ?s = Inr s' \<longrightarrow>
      tr_R s' = (if tr_iter ?s mod 10 = 0 \<and> 1 < tr_R ?s then tr_R ?s - 1 else tr_R ?s)"
    by blast+
  from st p have "tr_R ?s' = (if tr_iter ?s mod 10 = 0 \<and> 1 < tr_R ?s then tr_R ?s - 1 else tr_R ?s)"
    by blast
  then have "tr_R ?s' = tr_R ?s - 1" by simp
  then show ?thesis using h p r0 by simp
qed

text \<open>
  The bounds of the neighbourhood satisfy \<open>0 \<le> from_node\<close> and \<open>to_node \<le> num_out\<close> for
  every index and radius, also where \<^verbatim>\<open>d_min_idx + R\<close> has wrapped around, so every
  access of step 3 to \<open>W\<close> is in range; the neighbourhood of a node \<open>bmu\<close> in
  \<open>[0, num_out)\<close> with \<open>R \<ge> 0\<close> holds \<open>bmu\<close>, up to that overflow.
\<close>

lemma window_clamped:
  "0 \<le> from_node bmu R \<and> to_node num_out bmu R \<le> num_out \<and>
   (0 \<le> bmu \<and> bmu < num_out \<and> 0 \<le> R \<and> bmu + R \<le> 2147483647 \<longrightarrow>
      from_node bmu R \<le> bmu \<and> bmu < to_node num_out bmu R)"
proof (intro conjI impI)
  show "0 \<le> from_node bmu R" by (rule from_node_ge)
  show "to_node num_out bmu R \<le> num_out" by (rule to_node_le)
  assume h: "0 \<le> bmu \<and> bmu < num_out \<and> 0 \<le> R \<and> bmu + R \<le> 2147483647"
  then have f: "from_node bmu R = max 0 (bmu - R)" by (intro from_node_max) auto
  from h have t: "to_node num_out bmu R = min num_out (bmu + R + 1)" by (intro to_node_min) auto
  show "from_node bmu R \<le> bmu" using h unfolding f by auto
  show "bmu < to_node num_out bmu R" using h unfolding t by auto
qed

text \<open>
  A call on distances below \<open>2\<^sup>1\<^sup>0\<^sup>2\<^sup>4\<close>: \<^verbatim>\<open>get_min_1d\<close> stores into \<^verbatim>\<open>d_min_idx\<close>, what the
  variable held before has no effect, and the call is \<open>update_weights\<close>.
\<close>

lemma sq_dist_nonneg: "0 \<le> sq_dist num_features x w"
  by (simp add: sq_dist_def sum_nonneg)

lemma update_weights_with_in_range:
  assumes "wf_mat W num_out num_features" "int (length x) = num_features"
    "int (length D) = num_out" "1 \<le> num_out"
    "\<forall>j<length W. sq_dist num_features x (W ! j) < 2 ^ 1024"
  shows "update_weights_with dbl slot x W D num_out num_features alpha R =
     update_weights x W D num_out num_features alpha R"
proof -
  let ?D = "map (sq_dist num_features x) W"
  have s1: "step1 x W D num_out num_features = Inr ?D"
    using assms by (intro step1_eq) (auto simp: wf_mat_def)
  have "dbl (sq_dist num_features x (W ! j)) = Finite (sq_dist num_features x (W ! j))"
    if "j < length W" for j
  proof (rule dbl_Finite)
    have "- (2 ^ 1024) < (0 :: real)" by simp
    then show "- (2 ^ 1024) < sq_dist num_features x (W ! j)"
      using sq_dist_nonneg[of num_features x "W ! j"] by linarith
    show "sq_dist num_features x (W ! j) < 2 ^ 1024" using assms(5) that by simp
  qed
  then have d: "map dbl ?D = map Finite ?D"
    by (intro nth_equalityI) simp_all
  have n: "num_out = int (length ?D)" using assms(1) by (simp add: wf_mat_def)
  from get_min_1d_eq[OF n assms(4), of slot]
  obtain m1 where m1: "m1 < length ?D"
    "get_min_1d (map Finite ?D) num_out slot = Inr (Finite (?D ! m1), Some (int m1))"
    "\<forall>j<length ?D. ?D ! m1 \<le> ?D ! j" "\<forall>j<m1. ?D ! m1 < ?D ! j"
    by blast
  from get_min_1d_eq[OF n assms(4), of None]
  obtain m2 where m2: "m2 < length ?D"
    "get_min_1d (map Finite ?D) num_out None = Inr (Finite (?D ! m2), Some (int m2))"
    "\<forall>j<length ?D. ?D ! m2 \<le> ?D ! j" "\<forall>j<m2. ?D ! m2 < ?D ! j"
    by blast
  have "\<not> m1 < m2"
  proof
    assume "m1 < m2"
    then have "?D ! m2 < ?D ! m1" using m2(4) by blast
    moreover have "?D ! m1 \<le> ?D ! m2" using m1(3) m2(1) by blast
    ultimately show False by simp
  qed
  moreover have "\<not> m2 < m1"
  proof
    assume "m2 < m1"
    then have "?D ! m1 < ?D ! m2" using m1(4) by blast
    moreover have "?D ! m2 \<le> ?D ! m1" using m2(3) m1(1) by blast
    ultimately show False by simp
  qed
  ultimately have "m1 = m2" by simp
  then have "get_min_1d (map dbl ?D) num_out slot = get_min_1d (map Finite ?D) num_out None"
    unfolding d using m1(2) m2(2) by simp
  then show ?thesis by (simp add: update_weights_def update_weights_with_def s1)
qed


text \<open>
  One pass over the samples is \<open>run_samples\<close> on the whole of \<open>X\<close>: the samples are
  handled in the order of \<open>X\<close>, each call on the weights that the call before has left.
\<close>

lemma tracer_pass_run_samples:
  assumes "num_samples = int (length X)"
  shows "tracer_pass X num_samples num_features num_out s =
     (case run_samples X (tr_W s) (tr_D s) num_out num_features (tr_alpha s) (tr_R s) of
        Inl e \<Rightarrow> Inl e
      | Inr (W', D') \<Rightarrow>
          Inr \<lparr>tr_W = W', tr_D = D',
               tr_R = (if tr_iter s mod 10 = 0 \<and> tr_R s > 1 then tr_R s - 1 else tr_R s),
               tr_iter = c_int (tr_iter s + 1),
               tr_alpha = tr_alpha s - 0.01\<rparr>)"
  using sample_loop_run_samples[of 0 num_samples X] assms by (simp add: tracer_pass_def)

text \<open>
  C9 says that two runs on the same arguments end with the same weights. In the first
  call of a run on one sample \<open>x = {- 2\<^sup>6\<^sup>0\<^sup>0}\<close> and one node \<open>W = {{2\<^sup>6\<^sup>0\<^sup>0}}\<close> (\<open>alpha = 1\<close>,
  \<open>R = 0\<close>) \<^verbatim>\<open>get_min_1d\<close> stores nothing into \<^verbatim>\<open>d_min_idx\<close>, and the neighbourhood is
  computed from what the memory of the variable held before the call: with \<open>0\<close> there
  the weight of the node moves to \<open>x\<close>, with \<open>1\<close> there it stays, so the weights after the
  call are not a function of the arguments. (The order of the samples is fixed, see
  \<open>tracer_pass_run_samples\<close>, and a call on distances below \<open>2\<^sup>1\<^sup>0\<^sup>2\<^sup>4\<close> does not depend on
  that memory, see \<open>update_weights_with_in_range\<close>.)
\<close>

theorem update_weights_depends_on_slot:
  "update_weights_with dbl (Some 0) [- (2 ^ 600)] [[2 ^ 600]] [0] 1 1 1 0 =
     Inr ([[- (2 ^ 600)]], [2 ^ 1202]) \<and>
   update_weights_with dbl (Some 1) [- (2 ^ 600)] [[2 ^ 600]] [0] 1 1 1 0 =
     Inr ([[2 ^ 600]], [2 ^ 1202]) \<and>
   [[- (2 ^ 600)]] \<noteq> [[2 ^ 600 :: real]]"
  by (simp add: update_weights_with_def step1_def step1_j.simps step1_k.simps
      step1_acc_def dbl_def get_min_1d_def get_min_loop.simps step3_def to_node_def
      from_node_def c_int_def step3_j.simps step3_k.simps step3_acc_def Let_def)

end
